theory Spec2Isabelle
  imports Main "HOL-Library.Word"
begin

unbundle bit_operations_syntax

section \<open>The LED matrix watch driver (Watch.cpp)\<close>

text \<open>
  The driver keeps all of its state in file-level statics shared between the
  application and three interrupt handlers. The model is a record of those
  statics plus the AVR registers the code writes, and every function of the
  driver is a function on that record.

  Memory obtained from \<open>malloc\<close> is a list of bytes; a pointer into it is an
  offset. \<open>img[0]\<close> and \<open>img[1]\<close> are the two offsets kept in the list \<open>img\<close>.
  An \<open>int16_t\<close> is a 16-bit word read through \<open>sint\<close>.
\<close>

type_synonym u8 = "8 word"
type_synonym u16 = "16 word"

subsection \<open>Tables and constants\<close>

definition rowBitPortB :: "u8 list" where
  "rowBitPortB = [0, 0x20, 0, 0x10, 0x04, 0, 0x01, 0]"

definition rowBitPortC :: "u8 list" where
  "rowBitPortC = [0, 0, 0x08, 0, 0, 0x04, 0, 0]"

definition rowBitPortD :: "u8 list" where
  "rowBitPortD = [0x10, 0, 0, 0, 0, 0, 0, 0x20]"

definition PORTB_OFF :: u8 where "PORTB_OFF = 0xCA"
definition PORTC_OFF :: u8 where "PORTC_OFF = 0x33"
definition PORTD_OFF :: u8 where "PORTD_OFF = 0xCC"

definition OVERHEAD :: u16 where "OVERHEAD = 53"
definition LEDMINTIME :: u16 where "LEDMINTIME = 60"

definition bufSize :: nat where "bufSize = 3 * 8 * 8"

text \<open>
  Modelled from the spec: the action codes \<open>ACTION_*\<close> are macros of Watch.h, which is
  not among the sources. The spec lists them as the six values of \<open>ActionCode\<close>
  (None, TapLeft, TapRight, HoldLeft, HoldRight, HoldBoth); only their being
  distinct matters to the handlers below.
\<close>

datatype action =
    ACTION_NONE
  | ACTION_TAP_LEFT
  | ACTION_TAP_RIGHT
  | ACTION_HOLD_LEFT
  | ACTION_HOLD_RIGHT
  | ACTION_HOLD_BOTH

text \<open>Bit masks of avr-libc: \<open>_BV(PORTD2)\<close>, \<open>_BV(PORTD3)\<close> and \<open>_BV(TOIE2)\<close>.\<close>

definition BV_PORTD2 :: u8 where "BV_PORTD2 = 4"
definition BV_PORTD3 :: u8 where "BV_PORTD3 = 8"
definition BV_TOIE2 :: u8 where "BV_TOIE2 = 1"

subsection \<open>State\<close>

record watch =
  mem :: "u8 list"
  img :: "nat list"
  plane :: u8
  col :: u8
  ptr :: nat
  frontIdx :: u8
  bSave :: u8
  bCount :: u8
  bAction :: action
  swapFlag :: bool
  frames :: u16
  PORTB :: u8
  PORTC :: u8
  PORTD :: u8
  OCR1A :: u16
  TCNT1 :: u16
  TCNT2 :: u8
  TIMSK2 :: u8

text \<open>\<open>img[frontIdx]\<close> and \<open>img[1 - frontIdx]\<close>. \<open>frontIdx\<close> starts at 0 and is only
  ever XORed with 1, so both indices stay in \<open>{0, 1}\<close>; the subtraction is done in
  \<open>int\<close> as in C.\<close>

definition frontBuf :: "watch \<Rightarrow> nat" where
  "frontBuf s = img s ! unat (frontIdx s)"

definition backBuffer :: "watch \<Rightarrow> nat" where
  "backBuffer s = img s ! nat (1 - uint (frontIdx s))"

subsection \<open>Constructor\<close>

text \<open>The initialisers of the statics, and registers as they are after reset.\<close>

definition statics :: watch where
  "statics = \<lparr> mem = [], img = [0, 0], plane = 7, col = 7, ptr = 0, frontIdx = 0,
     bSave = 0, bCount = 0, bAction = ACTION_NONE, swapFlag = False, frames = 0,
     PORTB = 0, PORTC = 0, PORTD = 0, OCR1A = 0, TCNT1 = 0, TCNT2 = 0, TIMSK2 = 0 \<rparr>"

text \<open>The fill loop \<open>for(uint8_t i=0; i<bufSize;) { ptr[i++] = ...; ptr[i++] = ...;
  ptr[i++] = ...; }\<close> with its 8-bit counter.\<close>

function fillOff :: "u8 \<Rightarrow> u8 list \<Rightarrow> u8 list" where
  "fillOff i m =
     (if unat i < bufSize
      then fillOff (i + 3)
             (m[unat i := PORTB_OFF, unat (i + 1) := PORTC_OFF, unat (i + 2) := PORTD_OFF])
      else m)"
  by pat_completeness auto
termination
proof (relation "measure (\<lambda>(i, m). bufSize - unat i)")
  show "wf (measure (\<lambda>(i, m). bufSize - unat i))" by simp
next
  fix i :: u8 and m :: "u8 list"
  assume lt: "unat i < bufSize"
  then have "unat i + 3 < 2 ^ 8" by (simp add: bufSize_def)
  then have "unat (i + 3) = unat i + 3"
    by (simp add: unat_word_ariths)
  with lt show "((i + 3, m[unat i := PORTB_OFF, unat (i + 1) := PORTC_OFF,
                    unat (i + 2) := PORTD_OFF]), (i, m))
                \<in> measure (\<lambda>(i, m). bufSize - unat i)"
    by simp
qed

definition memcpy :: "nat \<Rightarrow> nat \<Rightarrow> nat \<Rightarrow> u8 list \<Rightarrow> u8 list" where
  "memcpy dst src n m = take dst m @ take n (drop src m) @ drop (dst + n) m"

text \<open>\<open>Watch::Watch(dbuf)\<close>. The argument \<open>blk\<close> is what \<open>malloc(allocSize)\<close> returned:
  \<open>None\<close> for a null pointer, otherwise a block of \<open>allocSize\<close> bytes of arbitrary
  content. On a null pointer the constructor returns early and the object is
  unusable, which is the result \<open>None\<close>.\<close>

definition allocSize :: "bool \<Rightarrow> nat" where
  "allocSize dbuf = (if dbuf then bufSize * 2 else bufSize)"

definition Watch :: "u8 list option \<Rightarrow> bool \<Rightarrow> watch option" where
  "Watch blk dbuf =
     (case blk of
        None \<Rightarrow> None
      | Some raw \<Rightarrow>
          let s0 = statics\<lparr>mem := fillOff 0 raw, img := [0, 0], ptr := 0\<rparr>
          in Some (if dbuf
                   then s0\<lparr>img := [0, bufSize], mem := memcpy bufSize 0 bufSize (mem s0)\<rparr>
                   else s0\<lparr>img := [0, 0]\<rparr>))"

subsection \<open>Pixel drawing\<close>

text \<open>One pass of the body of the loop of \<open>drawPixel\<close>: the three read-modify-write
  statements on \<open>p[0]\<close>, \<open>p[1]\<close>, \<open>p[2]\<close>, setting the masks when \<open>c8 & bit\<close> is
  nonzero and clearing them otherwise.\<close>

definition planeStep :: "bool \<Rightarrow> u8 \<Rightarrow> u8 \<Rightarrow> u8 \<Rightarrow> nat \<Rightarrow> u8 list \<Rightarrow> u8 list" where
  "planeStep on bmask cmask dmask p m =
     (if on
      then (let m1 = m[p := m ! p OR bmask];
                m2 = m1[p + 1 := m1 ! (p + 1) OR cmask]
            in m2[p + 2 := m2 ! (p + 2) OR dmask])
      else (let m1 = m[p := m ! p AND NOT bmask];
                m2 = m1[p + 1 := m1 ! (p + 1) AND NOT cmask]
            in m2[p + 2 := m2 ! (p + 2) AND NOT dmask]))"

text \<open>The loop \<open>for(uint8_t bit = 1; bit; bit <<= 1)\<close> with \<open>p += 24\<close> at the end of its
  body. It ends because a byte shifted left often enough is zero: the measure is
  the number of shifts still needed.\<close>

function drawLoop :: "u8 \<Rightarrow> u8 \<Rightarrow> u8 \<Rightarrow> u8 \<Rightarrow> u8 \<Rightarrow> nat \<Rightarrow> u8 list \<Rightarrow> u8 list" where
  "drawLoop b c8 bmask cmask dmask p m =
     (if b \<noteq> 0
      then drawLoop (push_bit 1 b) c8 bmask cmask dmask (p + 24)
             (planeStep (c8 AND b \<noteq> 0) bmask cmask dmask p m)
      else m)"
  by pat_completeness auto
termination
proof (relation "measure (\<lambda>(b, c8, bmask, cmask, dmask, p, m). LEAST n. push_bit n b = 0)")
  show "wf (measure (\<lambda>(b :: u8, c8 :: u8, bmask :: u8, cmask :: u8, dmask :: u8,
                      p :: nat, m :: u8 list). LEAST n. push_bit n b = 0))"
    by simp
next
  fix b c8 bmask cmask dmask :: u8 and p :: nat and m :: "u8 list"
  assume nz: "b \<noteq> 0"
  have P8: "push_bit 8 b = 0" by simp
  have P0: "push_bit 0 b \<noteq> 0" using nz by simp
  have "(LEAST n. push_bit n b = 0) = Suc (LEAST n. push_bit (Suc n) b = 0)"
    using P8 P0 by (rule Least_Suc)
  moreover have "\<And>n. push_bit n (push_bit 1 b) = push_bit (Suc n) b"
    by (simp add: push_bit_double mult.commute)
  ultimately have "(LEAST n. push_bit n (push_bit 1 b) = 0) < (LEAST n. push_bit n b = 0)"
    by simp
  then show "((push_bit 1 b, c8, bmask, cmask, dmask, p + 24,
               planeStep (c8 AND b \<noteq> 0) bmask cmask dmask p m),
              (b, c8, bmask, cmask, dmask, p, m))
             \<in> measure (\<lambda>(b, c8, bmask, cmask, dmask, p, m). LEAST n. push_bit n b = 0)"
    by simp
qed

text \<open>\<open>Watch::drawPixel(x, y, c)\<close>. The table lookups and the row offset use \<open>x\<close> and
  \<open>y\<close> only inside the range check.\<close>

definition drawPixel :: "u16 \<Rightarrow> u16 \<Rightarrow> u16 \<Rightarrow> watch \<Rightarrow> watch" where
  "drawPixel x y c s =
     (if sint x \<ge> 0 \<and> sint y \<ge> 0 \<and> sint x < 8 \<and> sint y < 8
      then (let bmask = rowBitPortB ! nat (sint x);
                cmask = rowBitPortC ! nat (sint x);
                dmask = rowBitPortD ! nat (sint x);
                c8 = (ucast c :: u8);
                p = backBuffer s + nat (sint y) * 3
            in s\<lparr>mem := drawLoop 1 c8 bmask cmask dmask p (mem s)\<rparr>)
      else s)"

subsection \<open>Buffer swap and the refresh interrupt\<close>

text \<open>The two macros of the refresh interrupt. \<open>COLSTART(n, port, bit, idx)\<close> sets one
  bit of a port (\<open>sbi\<close>, the previous column off) and then copies \<open>p[idx]\<close>,
  \<open>p[idx+1]\<close>, \<open>p[idx+2]\<close> to PORTB, PORTC, PORTD. \<open>COLEND(port, bit, nxt)\<close> stores
  the next column and clears one bit of a port (\<open>cbi\<close>, the loaded column on).\<close>

datatype ioport = IO_PORTB | IO_PORTC | IO_PORTD

definition sbi :: "ioport \<Rightarrow> nat \<Rightarrow> watch \<Rightarrow> watch" where
  "sbi port b s =
     (case port of
        IO_PORTB \<Rightarrow> s\<lparr>PORTB := set_bit b (PORTB s)\<rparr>
      | IO_PORTC \<Rightarrow> s\<lparr>PORTC := set_bit b (PORTC s)\<rparr>
      | IO_PORTD \<Rightarrow> s\<lparr>PORTD := set_bit b (PORTD s)\<rparr>)"

definition cbi :: "ioport \<Rightarrow> nat \<Rightarrow> watch \<Rightarrow> watch" where
  "cbi port b s =
     (case port of
        IO_PORTB \<Rightarrow> s\<lparr>PORTB := unset_bit b (PORTB s)\<rparr>
      | IO_PORTC \<Rightarrow> s\<lparr>PORTC := unset_bit b (PORTC s)\<rparr>
      | IO_PORTD \<Rightarrow> s\<lparr>PORTD := unset_bit b (PORTD s)\<rparr>)"

definition COLSTART :: "ioport \<Rightarrow> nat \<Rightarrow> nat \<Rightarrow> nat \<Rightarrow> watch \<Rightarrow> watch" where
  "COLSTART port b idx p s =
     (let s1 = sbi port b s
      in s1\<lparr>PORTB := mem s1 ! (p + idx),
            PORTC := mem s1 ! (p + idx + 1),
            PORTD := mem s1 ! (p + idx + 2)\<rparr>)"

definition COLEND :: "ioport \<Rightarrow> nat \<Rightarrow> u8 \<Rightarrow> watch \<Rightarrow> watch" where
  "COLEND port b nxt s = cbi port b (s\<lparr>col := nxt\<rparr>)"

text \<open>The body of \<open>case 7\<close> between the macros: advance the plane; at the wrap commit
  a requested swap, reload \<open>ptr\<close> and count the frame.\<close>

definition advancePlane :: "watch \<Rightarrow> watch" where
  "advancePlane s =
     (let s1 = s\<lparr>plane := plane s + 1\<rparr>
      in if plane s1 \<ge> 8
         then (let s2 = s1\<lparr>plane := 0\<rparr>;
                   s3 = (if swapFlag s2
                         then s2\<lparr>frontIdx := frontIdx s2 XOR 1, swapFlag := False\<rparr>
                         else s2)
               in s3\<lparr>ptr := frontBuf s3, frames := frames s3 + 1\<rparr>)
         else s1\<lparr>ptr := ptr s1 + 24\<rparr>)"

text \<open>\<open>ISR(TIMER1_COMPA_vect)\<close>. A value of \<open>col\<close> above 7 matches no case of the switch.
  \<open>LEDMINTIME << plane\<close> is computed in 16 bits, the width of \<open>int\<close> and of OCR1A.\<close>

definition TIMER1_COMPA_vect :: "watch \<Rightarrow> watch" where
  "TIMER1_COMPA_vect s =
     (let p = ptr s;
          s' =
            (if col s = 0 then
               COLEND IO_PORTD 6 4
                 ((COLSTART IO_PORTD 7 0 p s)
                    \<lparr>OCR1A := push_bit (unat (plane s)) LEDMINTIME - OVERHEAD\<rparr>)
             else if col s = 1 then COLEND IO_PORTB 6 5 (COLSTART IO_PORTB 3 3 p s)
             else if col s = 2 then COLEND IO_PORTC 1 6 (COLSTART IO_PORTC 0 6 p s)
             else if col s = 3 then COLEND IO_PORTB 1 7 (COLSTART IO_PORTB 7 9 p s)
             else if col s = 4 then COLEND IO_PORTC 0 2 (COLSTART IO_PORTD 6 12 p s)
             else if col s = 5 then COLEND IO_PORTB 7 3 (COLSTART IO_PORTB 6 15 p s)
             else if col s = 6 then COLEND IO_PORTB 3 1 (COLSTART IO_PORTC 1 18 p s)
             else if col s = 7 then
               COLEND IO_PORTD 7 0 (advancePlane (COLSTART IO_PORTB 1 21 p s))
             else s)
      in s'\<lparr>TCNT1 := 0\<rparr>)"

text \<open>\<open>Watch::begin()\<close>, as far as it touches the modelled registers and statics.\<close>

definition begin_watch :: "watch \<Rightarrow> watch" where
  "begin_watch s =
     s\<lparr>PORTB := PORTB_OFF, PORTC := PORTC_OFF, PORTD := PORTD_OFF,
       OCR1A := 100, bSave := BV_PORTD3 OR BV_PORTD2\<rparr>"

text \<open>\<open>Watch::swapBuffers(copy)\<close>. The loop \<open>for(swapFlag = true; swapFlag; );\<close> has an
  empty body: all that happens while it spins is the refresh interrupt firing.
  \<open>waitSwap\<close> is that loop, one firing per turn; it does not return if the flag
  is never cleared, which is the value \<open>None\<close>.\<close>

partial_function (option) waitSwap :: "watch \<Rightarrow> watch option" where
  "waitSwap s = (if swapFlag s then waitSwap (TIMER1_COMPA_vect s) else Some s)"

definition swapBuffers :: "bool \<Rightarrow> watch \<Rightarrow> watch option" where
  "swapBuffers copy s =
     (case waitSwap (s\<lparr>swapFlag := True\<rparr>) of
        None \<Rightarrow> None
      | Some s1 \<Rightarrow>
          Some (if copy
                then s1\<lparr>mem := memcpy (backBuffer s1) (frontBuf s1) bufSize (mem s1)\<rparr>
                else s1))"

subsection \<open>Buttons\<close>

text \<open>\<open>Watch::action()\<close>: return the pending action and clear it.\<close>

definition action :: "watch \<Rightarrow> action \<times> watch" where
  "action s = (bAction s, s\<lparr>bAction := ACTION_NONE\<rparr>)"

text \<open>\<open>ISR(INT0_vect)\<close>, also installed for INT1. \<open>pind\<close> is the value read from PIND.\<close>

definition INT0_vect :: "u8 \<Rightarrow> watch \<Rightarrow> watch" where
  "INT0_vect pind s =
     (let b = pind AND (BV_PORTD3 OR BV_PORTD2)
      in if b = (BV_PORTD3 OR BV_PORTD2)
         then (let s1 = s\<lparr>TIMSK2 := TIMSK2 s AND NOT BV_TOIE2\<rparr>;
                   s2 = (if bCount s1 > 2
                         then (if bSave s1 = BV_PORTD3 then s1\<lparr>bAction := ACTION_TAP_LEFT\<rparr>
                               else if bSave s1 = BV_PORTD2 then s1\<lparr>bAction := ACTION_TAP_RIGHT\<rparr>
                               else s1)
                         else s1)
               in s2\<lparr>bSave := b\<rparr>)
         else if b = bSave s then s
         else s\<lparr>bCount := 0, TCNT2 := 0, TIMSK2 := TIMSK2 s OR BV_TOIE2, bSave := b\<rparr>)"

text \<open>\<open>ISR(TIMER2_OVF_vect)\<close>.\<close>

definition TIMER2_OVF_vect :: "watch \<Rightarrow> watch" where
  "TIMER2_OVF_vect s =
     (if bCount s \<ge> 76
      then (let s1 = s\<lparr>TIMSK2 := TIMSK2 s AND NOT BV_TOIE2\<rparr>;
                s2 = (if bSave s1 = BV_PORTD3 then s1\<lparr>bAction := ACTION_HOLD_LEFT\<rparr>
                      else if bSave s1 = BV_PORTD2 then s1\<lparr>bAction := ACTION_HOLD_RIGHT\<rparr>
                      else if bSave s1 = 0 then s1\<lparr>bAction := ACTION_HOLD_BOTH\<rparr>
                      else s1)
            in s2\<lparr>bSave := 0, bCount := 0\<rparr>)
      else s\<lparr>bCount := bCount s + 1\<rparr>)"

text \<open>One overflow of timer 2: the handler runs only while its interrupt is enabled
  (bit TOIE2 of TIMSK2).\<close>

definition tick :: "watch \<Rightarrow> watch" where
  "tick s = (if TIMSK2 s AND BV_TOIE2 \<noteq> 0 then TIMER2_OVF_vect s else s)"

subsection \<open>Derived notions used in the statements\<close>

text \<open>The successor column that each case of the refresh interrupt stores through
  \<open>COLEND\<close>, collected from the eight cases of the switch.\<close>

definition nextCol :: "u8 \<Rightarrow> u8" where
  "nextCol c =
     (if c = 0 then 4 else if c = 1 then 5 else if c = 2 then 6 else if c = 3 then 7
      else if c = 4 then 2 else if c = 5 then 3 else if c = 6 then 1 else if c = 7 then 0
      else c)"

text \<open>The order in which the cases hand on \<open>col\<close>, starting from column 0.\<close>

definition colOrder :: "u8 list" where
  "colOrder = [0, 4, 2, 6, 1, 5, 3, 7]"

text \<open>The condition under which \<open>case 7\<close> takes the branch \<open>++plane >= 8\<close>: the fire
  that ends a frame.\<close>

definition frameBoundary :: "watch \<Rightarrow> bool" where
  "frameBoundary s = (col s = 7 \<and> plane s + 1 \<ge> 8)"

text \<open>The driver after construction on a zero-filled block and \<open>begin()\<close>.\<close>

definition powerOn :: "bool \<Rightarrow> watch" where
  "powerOn dbuf = begin_watch (the (Watch (Some (replicate (allocSize dbuf) 0)) dbuf))"

text \<open>What one statement pair \<open>p[i] |= mask\<close> / \<open>p[i] &= ~mask\<close> stores.\<close>

definition setOrClear :: "bool \<Rightarrow> u8 \<Rightarrow> u8 \<Rightarrow> u8" where
  "setOrClear on msk v = (if on then v OR msk else v AND NOT msk)"

text \<open>The decoding that the specification describes; the driver itself never reads
  a pixel back. Bit \<open>k\<close> of the intensity of pixel \<open>(x, y)\<close> in the buffer at offset
  \<open>buf\<close> is set when a drive-line bit of column \<open>x\<close> is set in one of the three
  bytes of row \<open>y\<close> in plane \<open>k\<close>; the intensity is the 8-bit number with these
  bits.\<close>

definition spec_planeBit :: "u8 list \<Rightarrow> nat \<Rightarrow> nat \<Rightarrow> nat \<Rightarrow> nat \<Rightarrow> bool" where
  "spec_planeBit m buf x y k =
     (m ! (buf + y * 3 + 24 * k) AND rowBitPortB ! x \<noteq> 0
    \<or> m ! (buf + y * 3 + 24 * k + 1) AND rowBitPortC ! x \<noteq> 0
    \<or> m ! (buf + y * 3 + 24 * k + 2) AND rowBitPortD ! x \<noteq> 0)"

definition spec_intensity :: "u8 list \<Rightarrow> nat \<Rightarrow> nat \<Rightarrow> nat \<Rightarrow> u8" where
  "spec_intensity m buf x y = horner_sum of_bool 2 (map (spec_planeBit m buf x y) [0..<8])"

text \<open>The layout the constructor sets up for \<open>dbuf = true\<close>: two buffers of \<open>bufSize\<close>
  bytes in one block, \<open>img[1]\<close> right behind \<open>img[0]\<close>.\<close>

definition doubleBuffered :: "watch \<Rightarrow> bool" where
  "doubleBuffered s =
     (img s = [0, bufSize] \<and> length (mem s) = 2 * bufSize \<and> frontIdx s \<le> 1)"

text \<open>The button mask with both buttons released, \<open>_BV(PORTD3) | _BV(PORTD2)\<close>, and the
  actions that the two handlers choose from the saved mask.\<close>

definition IDLE :: u8 where
  "IDLE = BV_PORTD3 OR BV_PORTD2"

definition holdAction :: "u8 \<Rightarrow> action" where
  "holdAction b =
     (if b = BV_PORTD3 then ACTION_HOLD_LEFT
      else if b = BV_PORTD2 then ACTION_HOLD_RIGHT
      else ACTION_HOLD_BOTH)"

definition tapAction :: "u8 \<Rightarrow> action" where
  "tapAction b = (if b = BV_PORTD3 then ACTION_TAP_LEFT else ACTION_TAP_RIGHT)"


section \<open>Properties\<close>

text \<open>Both recursive functions are unfolded by hand where needed.\<close>

declare drawLoop.simps [simp del] fillOff.simps [simp del]

subsection \<open>Small facts about bytes and iteration\<close>

lemma u8_below_8: "(c :: u8) < 8 \<Longrightarrow> c \<in> {0, 1, 2, 3, 4, 5, 6, 7}"
proof -
  assume "c < 8"
  then have "unat c < 8" by (simp add: word_less_nat_alt)
  then have "unat c \<in> {0, 1, 2, 3, 4, 5, 6, 7}" by auto
  moreover have "\<And>n. unat c = n \<Longrightarrow> c = word_of_nat n" by auto
  ultimately have "c = word_of_nat 0 \<or> c = word_of_nat 1 \<or> c = word_of_nat 2
      \<or> c = word_of_nat 3 \<or> c = word_of_nat 4 \<or> c = word_of_nat 5
      \<or> c = word_of_nat 6 \<or> c = word_of_nat 7"
    by blast
  then show ?thesis by simp
qed

lemma funpow_upto_8:
  "map (\<lambda>n. (f ^^ n) c) [0..<8] =
     [c, f c, f (f c), f (f (f c)), f (f (f (f c))), f (f (f (f (f c)))),
      f (f (f (f (f (f c))))), f (f (f (f (f (f (f c))))))]"
  "(f ^^ 8) c = f (f (f (f (f (f (f (f c)))))))"
  by (simp_all add: upt_rec eval_nat_numeral)

subsection \<open>Construction\<close>

lemma length_fillOff [simp]: "length (fillOff i m) = length m"
proof (induction i m rule: fillOff.induct)
  case (1 i m)
  show ?case
  proof (cases "unat i < bufSize")
    case True
    with 1 show ?thesis by (subst fillOff.simps) simp
  next
    case False
    then show ?thesis by (subst fillOff.simps) simp
  qed
qed

lemma length_memcpy:
  "dst + n \<le> length m \<Longrightarrow> src + n \<le> length m \<Longrightarrow> length (memcpy dst src n m) = length m"
  by (simp add: memcpy_def)

lemma powerOn_fields:
  "length (mem (powerOn dbuf)) = allocSize dbuf"
  "img (powerOn dbuf) = (if dbuf then [0, bufSize] else [0, 0])"
  "frontIdx (powerOn dbuf) = 0"
  "col (powerOn dbuf) = 7"
  "plane (powerOn dbuf) = 7"
  "\<not> swapFlag (powerOn dbuf)"
  "frames (powerOn dbuf) = 0"
  "OCR1A (powerOn dbuf) = 100"
  by (simp_all add: powerOn_def Watch_def begin_watch_def statics_def allocSize_def
        length_memcpy Let_def)

lemma powerOn_buffers:
  "frontBuf (powerOn dbuf) = 0"
  "backBuffer (powerOn dbuf) = (if dbuf then bufSize else 0)"
  by (simp_all add: frontBuf_def backBuffer_def powerOn_fields)

subsection \<open>Column traversal\<close>

lemma nextCol_values:
  "nextCol 0 = 4" "nextCol 1 = 5" "nextCol 2 = 6" "nextCol 3 = 7"
  "nextCol 4 = 2" "nextCol 5 = 3" "nextCol 6 = 1" "nextCol 7 = 0"
  by (simp_all add: nextCol_def)

lemma col_fire: "col (TIMER1_COMPA_vect s) = nextCol (col s)"
  by (simp add: TIMER1_COMPA_vect_def COLEND_def cbi_def nextCol_def Let_def)

lemma col_fires: "col ((TIMER1_COMPA_vect ^^ n) s) = (nextCol ^^ n) (col s)"
  by (induction n) (simp_all add: col_fire)

lemma nextCol_cycle:
  "c \<in> {0, 1, 2, 3, 4, 5, 6, 7} \<Longrightarrow>
   distinct (map (\<lambda>n. (nextCol ^^ n) c) [0..<8])
   \<and> set (map (\<lambda>n. (nextCol ^^ n) c) [0..<8]) = {0, 1, 2, 3, 4, 5, 6, 7}
   \<and> (nextCol ^^ 8) c = c"
  unfolding funpow_upto_8
  apply (elim insertE emptyE)
         apply (simp_all add: nextCol_values)
         apply blast+
  done

text \<open>
  C4. The columns which eight consecutive firings of the refresh interrupt find in
  \<open>col\<close>, starting from any column below 8, are pairwise different and are all of
  0..7, and the eighth firing leaves \<open>col\<close> where it started: no column is
  skipped or repeated in a sweep.
\<close>

theorem column_order_permutation:
  assumes "col s < 8"
  shows "distinct (map (\<lambda>n. col ((TIMER1_COMPA_vect ^^ n) s)) [0..<8])
       \<and> set (map (\<lambda>n. col ((TIMER1_COMPA_vect ^^ n) s)) [0..<8]) = {0, 1, 2, 3, 4, 5, 6, 7}
       \<and> col ((TIMER1_COMPA_vect ^^ 8) s) = col s"
  unfolding col_fires using assms by (intro nextCol_cycle u8_below_8)

theorem column_order_permutation_witness:
  "col statics < 8
   \<and> distinct (map (\<lambda>n. col ((TIMER1_COMPA_vect ^^ n) statics)) [0..<8])
   \<and> set (map (\<lambda>n. col ((TIMER1_COMPA_vect ^^ n) statics)) [0..<8]) = {0, 1, 2, 3, 4, 5, 6, 7}
   \<and> col ((TIMER1_COMPA_vect ^^ 8) statics) = col statics"
proof -
  have h: "col statics < 8" by (simp add: statics_def)
  show ?thesis using h column_order_permutation [OF h] by simp
qed

subsection \<open>Pixel drawing\<close>

text \<open>
  C7. When \<open>x\<close> or \<open>y\<close> is negative or above 7, \<open>drawPixel\<close> returns the state it was
  given: no byte of either buffer changes, whatever the intensity, and there is
  no error result.
\<close>

theorem drawPixel_out_of_range:
  "sint x < 0 \<or> sint x > 7 \<or> sint y < 0 \<or> sint y > 7 \<Longrightarrow> drawPixel x y c s = s"
  by (auto simp: drawPixel_def)

theorem drawPixel_out_of_range_witness:
  "(sint (-1 :: u16) < 0 \<or> sint (-1 :: u16) > 7 \<or> sint (3 :: u16) < 0 \<or> sint (3 :: u16) > 7)
   \<and> drawPixel (-1) 3 255 statics = statics"
  using drawPixel_out_of_range [of "-1" 3 255 statics] by simp

subsection \<open>The refresh interrupt\<close>

lemmas fire_defs = TIMER1_COMPA_vect_def COLSTART_def COLEND_def sbi_def cbi_def
  advancePlane_def Let_def

lemma u8_le_7: "(c :: u8) \<le> 7 \<Longrightarrow> c \<in> {0, 1, 2, 3, 4, 5, 6, 7}"
  by (rule u8_below_8) (simp add: word_le_nat_alt word_less_nat_alt)

lemma not_8_le_1: "\<not> (8 :: u8) \<le> 1"
  by (simp add: word_le_nat_alt)

lemma frameBoundary_iff:
  "plane s \<le> 7 \<Longrightarrow> frameBoundary s \<longleftrightarrow> col s = 7 \<and> plane s = 7"
  by (drule u8_le_7) (auto simp: frameBoundary_def not_8_le_1)

lemma plane_wraps_iff:
  "plane s \<le> 7 \<Longrightarrow>
   frameBoundary s \<longleftrightarrow> plane s \<noteq> 0 \<and> plane (TIMER1_COMPA_vect s) = 0"
  by (drule u8_le_7) (auto simp: frameBoundary_def fire_defs not_8_le_1)

lemma commit_fire:
  "frameBoundary s \<Longrightarrow>
     plane (TIMER1_COMPA_vect s) = 0 \<and> \<not> swapFlag (TIMER1_COMPA_vect s)
   \<and> frontIdx (TIMER1_COMPA_vect s) = (if swapFlag s then frontIdx s XOR 1 else frontIdx s)
   \<and> frames (TIMER1_COMPA_vect s) = frames s + 1
   \<and> ptr (TIMER1_COMPA_vect s) = frontBuf (TIMER1_COMPA_vect s)"
  by (simp add: frameBoundary_def fire_defs frontBuf_def)

lemma plain_fire:
  "\<not> frameBoundary s \<Longrightarrow>
     swapFlag (TIMER1_COMPA_vect s) = swapFlag s
   \<and> frontIdx (TIMER1_COMPA_vect s) = frontIdx s
   \<and> frames (TIMER1_COMPA_vect s) = frames s"
  by (simp add: frameBoundary_def fire_defs)

text \<open>
  C3. One firing of the refresh interrupt. If it is the firing that ends a frame
  (column 7 with the plane counter stepping to 8), the plane index is 0 afterwards,
  the swap flag is clear, the front index is flipped exactly if the flag was set,
  the frame counter is one higher, and \<open>ptr\<close> is the start of the buffer that is
  front afterwards. Any other firing leaves flag, front index and frame counter as
  they were. With the plane index in 0..7 the frame-ending firing is the one at
  column 7 of plane 7, and it is the only one at which the plane index goes from
  nonzero to 0.
\<close>

theorem swap_commit_at_frame_boundary:
  "(let s' = TIMER1_COMPA_vect s in
     (frameBoundary s \<longrightarrow>
        plane s' = 0 \<and> \<not> swapFlag s'
        \<and> frontIdx s' = (if swapFlag s then frontIdx s XOR 1 else frontIdx s)
        \<and> frames s' = frames s + 1
        \<and> ptr s' = frontBuf s')
   \<and> (\<not> frameBoundary s \<longrightarrow>
        swapFlag s' = swapFlag s \<and> frontIdx s' = frontIdx s \<and> frames s' = frames s)
   \<and> (plane s \<le> 7 \<longrightarrow>
        (frameBoundary s \<longleftrightarrow> col s = 7 \<and> plane s = 7)
        \<and> (frameBoundary s \<longleftrightarrow> plane s \<noteq> 0 \<and> plane s' = 0)))"
  using commit_fire [of s] plain_fire [of s] frameBoundary_iff [of s] plane_wraps_iff [of s]
  by (simp add: Let_def)

theorem swap_commit_at_frame_boundary_witness:
  "frameBoundary ((powerOn True)\<lparr>swapFlag := True\<rparr>)
   \<and> plane ((powerOn True)\<lparr>swapFlag := True\<rparr>) \<le> 7
   \<and> \<not> frameBoundary ((powerOn True)\<lparr>swapFlag := True, col := 3\<rparr>)
   \<and> \<not> swapFlag (TIMER1_COMPA_vect ((powerOn True)\<lparr>swapFlag := True\<rparr>))
   \<and> frontIdx (TIMER1_COMPA_vect ((powerOn True)\<lparr>swapFlag := True\<rparr>)) = 1
   \<and> frames (TIMER1_COMPA_vect ((powerOn True)\<lparr>swapFlag := True\<rparr>)) = 1
   \<and> swapFlag (TIMER1_COMPA_vect ((powerOn True)\<lparr>swapFlag := True, col := 3\<rparr>))
   \<and> frontIdx (TIMER1_COMPA_vect ((powerOn True)\<lparr>swapFlag := True, col := 3\<rparr>)) = 0"
proof -
  let ?a = "(powerOn True)\<lparr>swapFlag := True\<rparr>"
  let ?b = "(powerOn True)\<lparr>swapFlag := True, col := 3\<rparr>"
  have h: "frameBoundary ?a" "plane ?a \<le> 7" "\<not> frameBoundary ?b"
    "swapFlag ?a" "frontIdx ?a = 0" "frames ?a = 0" "swapFlag ?b" "frontIdx ?b = 0"
    by (simp_all add: frameBoundary_def powerOn_def Watch_def begin_watch_def statics_def)
  show ?thesis
    using h swap_commit_at_frame_boundary [of ?a] swap_commit_at_frame_boundary [of ?b]
    by (simp add: Let_def)
qed

subsection \<open>Timer intervals over a frame\<close>

lemma OCR1A_fire:
  "OCR1A (TIMER1_COMPA_vect s) =
     (if col s = 0 then push_bit (unat (plane s)) LEDMINTIME - OVERHEAD else OCR1A s)"
  by (simp add: fire_defs)

lemma plane_fire:
  "plane (TIMER1_COMPA_vect s) =
     (if col s = 7 then (if plane s + 1 \<ge> 8 then 0 else plane s + 1) else plane s)"
  by (simp add: fire_defs)

lemma order_from_0: "j < 8 \<Longrightarrow> (nextCol ^^ j) 0 = colOrder ! j"
proof -
  assume j: "j < 8"
  have "map (\<lambda>n. (nextCol ^^ n) 0) [0..<8] = colOrder"
    unfolding funpow_upto_8 by (simp add: nextCol_values colOrder_def)
  then have "map (\<lambda>n. (nextCol ^^ n) 0) [0..<8] ! j = colOrder ! j" by simp
  with j show ?thesis by (simp del: upt_Suc)
qed

lemma colOrder_inner:
  "j < 7 \<Longrightarrow> colOrder ! j \<noteq> 7"
  "0 < j \<Longrightarrow> j < 8 \<Longrightarrow> colOrder ! j \<noteq> 0"
  "colOrder ! 7 = 7"
proof -
  have "j < 7 \<Longrightarrow> j \<in> {0, 1, 2, 3, 4, 5, 6}" by auto
  then show "j < 7 \<Longrightarrow> colOrder ! j \<noteq> 7" by (auto simp: colOrder_def)
  have "0 < j \<Longrightarrow> j < 8 \<Longrightarrow> j \<in> {1, 2, 3, 4, 5, 6, 7}" by auto
  then show "0 < j \<Longrightarrow> j < 8 \<Longrightarrow> colOrder ! j \<noteq> 0" by (auto simp: colOrder_def)
  show "colOrder ! 7 = 7" by (simp add: colOrder_def)
qed

text \<open>The eight firings of one plane, from column 0: the columns come in
  \<open>colOrder\<close>, the plane index stays, and the interval written at column 0 stays
  in force.\<close>

lemma within_sweep:
  assumes c0: "col s = 0"
  shows "j < 8 \<Longrightarrow> col ((TIMER1_COMPA_vect ^^ j) s) = colOrder ! j
      \<and> plane ((TIMER1_COMPA_vect ^^ j) s) = plane s
      \<and> OCR1A ((TIMER1_COMPA_vect ^^ Suc j) s)
          = push_bit (unat (plane s)) LEDMINTIME - OVERHEAD"
proof (induction j)
  case 0
  then show ?case using c0 by (simp add: OCR1A_fire colOrder_def)
next
  case (Suc j)
  then have IH: "col ((TIMER1_COMPA_vect ^^ j) s) = colOrder ! j"
     "plane ((TIMER1_COMPA_vect ^^ j) s) = plane s"
     "OCR1A ((TIMER1_COMPA_vect ^^ Suc j) s) = push_bit (unat (plane s)) LEDMINTIME - OVERHEAD"
    and j: "j < 7" by simp_all
  have c: "col ((TIMER1_COMPA_vect ^^ Suc j) s) = colOrder ! Suc j"
    using Suc.prems c0 by (simp only: col_fires order_from_0)
  have p: "plane ((TIMER1_COMPA_vect ^^ Suc j) s) = plane s"
    using IH(1,2) colOrder_inner(1)[OF j] by (simp add: plane_fire)
  have o: "OCR1A ((TIMER1_COMPA_vect ^^ Suc (Suc j)) s)
             = push_bit (unat (plane s)) LEDMINTIME - OVERHEAD"
    using IH(3) c colOrder_inner(2)[of "Suc j"] Suc.prems
    by (simp add: OCR1A_fire del: funpow.simps(2)) (simp add: OCR1A_fire)
  show ?case using c p o by blast
qed

lemma next_sweep:
  assumes c0: "col s = 0" and p: "unat (plane s) < 7"
  shows "col ((TIMER1_COMPA_vect ^^ 8) s) = 0
       \<and> unat (plane ((TIMER1_COMPA_vect ^^ 8) s)) = Suc (unat (plane s))"
proof -
  let ?t = "(TIMER1_COMPA_vect ^^ 7) s"
  have e: "(TIMER1_COMPA_vect ^^ 8) s = TIMER1_COMPA_vect ?t"
    by (simp add: eval_nat_numeral)
  have t: "col ?t = 7" "plane ?t = plane s"
    using within_sweep [OF c0, of 7] by (simp_all add: colOrder_inner(3))
  from p have "plane s < 8" "plane s \<noteq> 7" by (auto simp: word_less_nat_alt)
  then have "plane s \<in> {0, 1, 2, 3, 4, 5, 6}" using u8_below_8 [of "plane s"] by blast
  then have "unat (plane (TIMER1_COMPA_vect ?t)) = Suc (unat (plane s))"
    using t by (auto simp: plane_fire word_le_nat_alt)
  then show ?thesis using t by (simp add: e col_fire nextCol_values)
qed

lemma on_time:
  "k \<le> 7 \<Longrightarrow> unat (push_bit k LEDMINTIME - OVERHEAD) + unat OVERHEAD = unat LEDMINTIME * 2 ^ k"
proof -
  assume "k \<le> 7"
  then have "k \<in> {0, 1, 2, 3, 4, 5, 6, 7}" by auto
  then show ?thesis by (auto simp: LEDMINTIME_def OVERHEAD_def)
qed

lemma sweep_start:
  assumes c0: "col s = 0" and p0: "plane s = 0"
  shows "q < 8 \<Longrightarrow> col ((TIMER1_COMPA_vect ^^ (8 * q)) s) = 0
       \<and> unat (plane ((TIMER1_COMPA_vect ^^ (8 * q)) s)) = q"
proof (induction q)
  case 0
  then show ?case using c0 p0 by simp
next
  case (Suc q)
  then have IH: "col ((TIMER1_COMPA_vect ^^ (8 * q)) s) = 0"
    "unat (plane ((TIMER1_COMPA_vect ^^ (8 * q)) s)) = q" and q: "q < 7" by simp_all
  have "(TIMER1_COMPA_vect ^^ (8 * Suc q)) s
      = (TIMER1_COMPA_vect ^^ 8) ((TIMER1_COMPA_vect ^^ (8 * q)) s)"
    by (simp only: mult_Suc_right funpow_add o_apply)
  then show ?case using next_sweep [OF IH(1)] IH(2) q by simp
qed

text \<open>
  C2, as the code has it. The interval register OCR1A is written only by the firing
  at column 0, with \<open>(LEDMINTIME << plane) - OVERHEAD\<close> for the plane index of that
  moment; a firing at any other column leaves the register as it is. Over the
  64 firings of a frame that starts at column 0 of plane 0, firing \<open>n\<close> handles
  column \<open>colOrder ! (n mod 8)\<close> of plane \<open>n div 8\<close>, and the interval in force
  after it, plus OVERHEAD, is \<open>LEDMINTIME * 2 ^ (n div 8)\<close>: each of the 8 columns
  gets an effective on-time of \<open>60 * 2 ^ k\<close> in plane \<open>k\<close>.
\<close>

theorem interval_programmed_at_column_0:
  "OCR1A (TIMER1_COMPA_vect s) =
     (if col s = 0 then push_bit (unat (plane s)) LEDMINTIME - OVERHEAD else OCR1A s)
   \<and> (col s = 0 \<and> plane s = 0 \<and> n < 64 \<longrightarrow>
        col ((TIMER1_COMPA_vect ^^ n) s) = colOrder ! (n mod 8)
      \<and> unat (plane ((TIMER1_COMPA_vect ^^ n) s)) = n div 8
      \<and> unat (OCR1A ((TIMER1_COMPA_vect ^^ Suc n) s)) + unat OVERHEAD
          = unat LEDMINTIME * 2 ^ (n div 8))"
proof (intro conjI impI)
  show "OCR1A (TIMER1_COMPA_vect s) =
     (if col s = 0 then push_bit (unat (plane s)) LEDMINTIME - OVERHEAD else OCR1A s)"
    by (rule OCR1A_fire)
next
  assume a: "col s = 0 \<and> plane s = 0 \<and> n < 64"
  let ?q = "n div 8" and ?j = "n mod 8"
  let ?t = "(TIMER1_COMPA_vect ^^ (8 * ?q)) s"
  from a have q: "?q < 8" and j: "?j < 8" by auto
  have t: "col ?t = 0" "unat (plane ?t) = ?q"
    using sweep_start [of s ?q] a q by simp_all
  have n: "n = ?j + 8 * ?q" by simp
  have e: "(TIMER1_COMPA_vect ^^ n) s = (TIMER1_COMPA_vect ^^ ?j) ?t"
    by (subst n) (simp only: funpow_add o_apply)
  have e': "(TIMER1_COMPA_vect ^^ Suc n) s = (TIMER1_COMPA_vect ^^ Suc ?j) ?t"
    by (subst n) (simp only: funpow_add o_apply add_Suc [symmetric])
  note w = within_sweep [OF t(1) j]
  show "col ((TIMER1_COMPA_vect ^^ n) s) = colOrder ! (n mod 8)"
    using w by (simp only: e)
  show "unat (plane ((TIMER1_COMPA_vect ^^ n) s)) = n div 8"
    using w t(2) by (simp only: e)
  have "unat (OCR1A ((TIMER1_COMPA_vect ^^ Suc ?j) ?t)) + unat OVERHEAD
          = unat LEDMINTIME * 2 ^ ?q"
    using w t(2) q on_time [of ?q] by simp
  then show "unat (OCR1A ((TIMER1_COMPA_vect ^^ Suc n) s)) + unat OVERHEAD
          = unat LEDMINTIME * 2 ^ (n div 8)"
    by (simp only: e')
qed

theorem interval_programmed_at_column_0_witness:
  "col (TIMER1_COMPA_vect (powerOn True)) = 0
   \<and> plane (TIMER1_COMPA_vect (powerOn True)) = 0 \<and> (19 :: nat) < 64
   \<and> col ((TIMER1_COMPA_vect ^^ 19) (TIMER1_COMPA_vect (powerOn True))) = 6
   \<and> unat (plane ((TIMER1_COMPA_vect ^^ 19) (TIMER1_COMPA_vect (powerOn True)))) = 2
   \<and> unat (OCR1A ((TIMER1_COMPA_vect ^^ Suc 19) (TIMER1_COMPA_vect (powerOn True)))) + 53 = 240"
proof -
  have h: "col (TIMER1_COMPA_vect (powerOn True)) = 0"
    "plane (TIMER1_COMPA_vect (powerOn True)) = 0"
    by (simp_all add: col_fire plane_fire nextCol_values powerOn_def Watch_def
          begin_watch_def statics_def not_8_le_1)
  have d: "(19 :: nat) div 8 = 2" "(19 :: nat) mod 8 = 3" by simp_all
  show ?thesis
    using h interval_programmed_at_column_0 [of "TIMER1_COMPA_vect (powerOn True)" 19]
    by (simp add: d colOrder_def LEDMINTIME_def OVERHEAD_def)
qed

text \<open>The first firing after \<open>begin()\<close> finds column 7 and plane 7 and writes no
  interval: the register still holds the 100 that \<open>begin()\<close> stored, which is
  neither \<open>(60 << 7) - 53\<close> for the plane it found nor \<open>(60 << 0) - 53\<close> for the
  plane it left behind.\<close>

theorem first_fire_keeps_initial_interval:
  "OCR1A (TIMER1_COMPA_vect (powerOn False)) = 100
   \<and> OCR1A (TIMER1_COMPA_vect (powerOn False))
       \<noteq> push_bit (unat (plane (powerOn False))) LEDMINTIME - OVERHEAD
   \<and> OCR1A (TIMER1_COMPA_vect (powerOn False))
       \<noteq> push_bit (unat (plane (TIMER1_COMPA_vect (powerOn False)))) LEDMINTIME - OVERHEAD"
  by (simp add: OCR1A_fire plane_fire powerOn_fields not_8_le_1 LEDMINTIME_def OVERHEAD_def)

subsection \<open>The bytes \<open>drawPixel\<close> writes\<close>

lemma length_planeStep [simp]: "length (planeStep on bm cm dm p m) = length m"
  by (simp add: planeStep_def Let_def)

lemma planeStep_nth:
  "p + 2 < length m \<Longrightarrow>
   planeStep on bm cm dm p m ! i =
     (if i = p then setOrClear on bm (m ! p)
      else if i = p + 1 then setOrClear on cm (m ! (p + 1))
      else if i = p + 2 then setOrClear on dm (m ! (p + 2))
      else m ! i)"
  by (simp add: planeStep_def Let_def setOrClear_def nth_list_update)

lemma drawLoop_unroll:
  "drawLoop 1 c bm cm dm p m =
     planeStep (bit c 7) bm cm dm (p + 168)
      (planeStep (bit c 6) bm cm dm (p + 144)
        (planeStep (bit c 5) bm cm dm (p + 120)
          (planeStep (bit c 4) bm cm dm (p + 96)
            (planeStep (bit c 3) bm cm dm (p + 72)
              (planeStep (bit c 2) bm cm dm (p + 48)
                (planeStep (bit c 1) bm cm dm (p + 24)
                  (planeStep (bit c 0) bm cm dm p m)))))))"
proof -
  have b: "\<And>k. (c AND 2 ^ k \<noteq> 0) = bit c k"
    by (simp add: and_exp_eq_0_iff_not_bit)
  show ?thesis
    using b [of 0] b [of 1] b [of 2] b [of 3] b [of 4] b [of 5] b [of 6] b [of 7]
    by (simp add: drawLoop.simps add.assoc)
qed


lemma length_drawLoop_1 [simp]: "length (drawLoop 1 c bm cm dm p m) = length m"
  by (simp only: drawLoop_unroll length_planeStep)

lemma k_below_8: "(k :: nat) < 8 \<Longrightarrow> k \<in> {0, 1, 2, 3, 4, 5, 6, 7}"
  by auto

lemma j_below_3: "(j :: nat) < 3 \<Longrightarrow> j \<in> {0, 1, 2}"
  by auto

lemma drawn_touched:
  assumes len: "p + 171 \<le> length m" and k: "k < 8" and j: "j < 3"
  shows "drawLoop 1 c bm cm dm p m ! (p + 24 * k + j)
           = setOrClear (bit c k) ([bm, cm, dm] ! j) (m ! (p + 24 * k + j))"
  using k_below_8 [OF k] j_below_3 [OF j] len
  unfolding drawLoop_unroll
  by (elim insertE emptyE) (simp_all add: planeStep_nth)

lemma drawn_other:
  assumes len: "p + 171 \<le> length m" and other: "\<forall>k<8. \<forall>j<3. i \<noteq> p + 24 * k + j"
  shows "drawLoop 1 c bm cm dm p m ! i = m ! i"
proof -
  have "\<And>k j. k < 8 \<Longrightarrow> j < 3 \<Longrightarrow> i \<noteq> p + 24 * k + j" using other by blast
  from this [of 0 0] this [of 0 1] this [of 0 2] this [of 1 0] this [of 1 1] this [of 1 2]
    this [of 2 0] this [of 2 1] this [of 2 2] this [of 3 0] this [of 3 1] this [of 3 2]
    this [of 4 0] this [of 4 1] this [of 4 2] this [of 5 0] this [of 5 1] this [of 5 2]
    this [of 6 0] this [of 6 1] this [of 6 2] this [of 7 0] this [of 7 1] this [of 7 2]
  show ?thesis
    using len unfolding drawLoop_unroll by (simp add: planeStep_nth)
qed


lemma setOrClear_own: "setOrClear on a v AND a \<noteq> 0 \<longleftrightarrow> on \<and> a \<noteq> 0"
proof -
  have "(v OR a) AND a = a" by (rule bit_eqI) (auto simp: bit_simps)
  moreover have "(v AND NOT a) AND a = 0" by (rule bit_eqI) (auto simp: bit_simps)
  ultimately show ?thesis by (simp add: setOrClear_def)
qed

lemma setOrClear_disjoint: "a AND a' = 0 \<Longrightarrow> setOrClear on a v AND a' = v AND a'"
proof -
  assume "a AND a' = 0"
  then have "\<And>n. \<not> bit (a AND a') n" by simp
  then have d: "\<And>n. \<not> (bit a n \<and> bit a' n)" by (simp add: bit_and_iff)
  show ?thesis
    unfolding setOrClear_def
    by (rule bit_eqI) (use d in \<open>auto simp: bit_simps\<close>)
qed

lemma setOrClear_within: "(setOrClear on a v XOR v) AND NOT a = 0"
  unfolding setOrClear_def by (rule bit_eqI) (auto simp: bit_simps)

lemma tables_disjoint:
  assumes "x < 8" "x' < 8" "x \<noteq> x'"
  shows "rowBitPortB ! x AND rowBitPortB ! x' = 0"
    "rowBitPortC ! x AND rowBitPortC ! x' = 0"
    "rowBitPortD ! x AND rowBitPortD ! x' = 0"
  using k_below_8 [OF assms(1)] k_below_8 [OF assms(2)] assms(3)
  by (auto simp: rowBitPortB_def rowBitPortC_def rowBitPortD_def)

lemma tables_one_line:
  assumes "x < 8"
  shows "\<exists>j<3. \<exists>b<8. \<forall>i<3. [rowBitPortB ! x, rowBitPortC ! x, rowBitPortD ! x] ! i
            = (if i = j then 2 ^ b else 0)"
proof -
  have r: "\<And>j b. j < 3 \<Longrightarrow> b < 8 \<Longrightarrow>
      \<forall>i\<in>{0, 1, 2}. [rowBitPortB ! x, rowBitPortC ! x, rowBitPortD ! x] ! i
            = (if i = j then 2 ^ b else 0) \<Longrightarrow> ?thesis"
    using j_below_3 by blast
  from k_below_8 [OF assms] show ?thesis
  proof (elim insertE emptyE)
    assume "x = 0" then show ?thesis
      by (intro r [of 2 4]) (simp_all add: rowBitPortB_def rowBitPortC_def rowBitPortD_def)
  next
    assume "x = 1" then show ?thesis
      by (intro r [of 0 5]) (simp_all add: rowBitPortB_def rowBitPortC_def rowBitPortD_def)
  next
    assume "x = 2" then show ?thesis
      by (intro r [of 1 3]) (simp_all add: rowBitPortB_def rowBitPortC_def rowBitPortD_def)
  next
    assume "x = 3" then show ?thesis
      by (intro r [of 0 4]) (simp_all add: rowBitPortB_def rowBitPortC_def rowBitPortD_def)
  next
    assume "x = 4" then show ?thesis
      by (intro r [of 0 2]) (simp_all add: rowBitPortB_def rowBitPortC_def rowBitPortD_def)
  next
    assume "x = 5" then show ?thesis
      by (intro r [of 1 2]) (simp_all add: rowBitPortB_def rowBitPortC_def rowBitPortD_def)
  next
    assume "x = 6" then show ?thesis
      by (intro r [of 0 0]) (simp_all add: rowBitPortB_def rowBitPortC_def rowBitPortD_def)
  next
    assume "x = 7" then show ?thesis
      by (intro r [of 2 5]) (simp_all add: rowBitPortB_def rowBitPortC_def rowBitPortD_def)
  qed
qed

lemma tables_some_line:
  "x < 8 \<Longrightarrow> rowBitPortB ! x \<noteq> 0 \<or> rowBitPortC ! x \<noteq> 0 \<or> rowBitPortD ! x \<noteq> 0"
  by (drule k_below_8) (auto simp: rowBitPortB_def rowBitPortC_def rowBitPortD_def)

lemma planeBit_drawn:
  assumes len: "buf + y * 3 + 171 \<le> length m" and k: "k < 8" and x: "x < 8"
  shows "spec_planeBit
           (drawLoop 1 c (rowBitPortB ! x) (rowBitPortC ! x) (rowBitPortD ! x) (buf + y * 3) m)
           buf x y k = bit c k"
  using drawn_touched [OF len k, of 0 c "rowBitPortB ! x" "rowBitPortC ! x" "rowBitPortD ! x"]
    drawn_touched [OF len k, of 1 c "rowBitPortB ! x" "rowBitPortC ! x" "rowBitPortD ! x"]
    drawn_touched [OF len k, of 2 c "rowBitPortB ! x" "rowBitPortC ! x" "rowBitPortD ! x"]
    tables_some_line [OF x]
  by (auto simp add: spec_planeBit_def setOrClear_own)

lemma intensity_drawn:
  assumes len: "buf + y * 3 + 171 \<le> length m" and x: "x < 8"
  shows "spec_intensity
           (drawLoop 1 c (rowBitPortB ! x) (rowBitPortC ! x) (rowBitPortD ! x) (buf + y * 3) m)
           buf x y = c"
proof -
  have "map (spec_planeBit
           (drawLoop 1 c (rowBitPortB ! x) (rowBitPortC ! x) (rowBitPortD ! x) (buf + y * 3) m)
           buf x y) [0..<8] = map (bit c) [0..<8]"
    by (rule map_cong [OF refl]) (simp add: planeBit_drawn [OF len _ x])
  then have "spec_intensity
           (drawLoop 1 c (rowBitPortB ! x) (rowBitPortC ! x) (rowBitPortD ! x) (buf + y * 3) m)
           buf x y = take_bit 8 c"
    unfolding spec_intensity_def by (simp only: horner_sum_bit_eq_take_bit)
  moreover have "take_bit 8 c = c" by (rule take_bit_word_eq_self) simp
  ultimately show ?thesis by simp
qed

text \<open>
  C1. For \<open>x\<close> and \<open>y\<close> in 0..7 and an intensity of at most 255, after \<open>drawPixel\<close> the
  number decoded from the plane bytes of pixel \<open>(x, y)\<close> in the back buffer is the
  intensity that was written. The back buffer has to lie inside the allocated
  block, as it does after construction.
\<close>

theorem pixel_round_trip:
  assumes x: "0 \<le> sint x" "sint x < 8" and y: "0 \<le> sint y" "sint y < 8"
    and c: "c \<le> 255"
    and len: "backBuffer s + bufSize \<le> length (mem s)"
  shows "unat (spec_intensity (mem (drawPixel x y c s)) (backBuffer s)
                 (nat (sint x)) (nat (sint y))) = unat c"
proof -
  from y have "nat (sint y) * 3 + 171 \<le> bufSize" by (simp add: bufSize_def)
  with len have l: "backBuffer s + nat (sint y) * 3 + 171 \<le> length (mem s)" by simp
  from x have x8: "nat (sint x) < 8" by simp
  have "spec_intensity (mem (drawPixel x y c s)) (backBuffer s) (nat (sint x)) (nat (sint y))
          = ucast c"
    using x y by (simp add: drawPixel_def Let_def intensity_drawn [OF l x8])
  moreover from c have "unat (ucast c :: u8) = unat c"
    by (simp add: unsigned_ucast_eq take_bit_eq_mod word_le_nat_alt)
  ultimately show ?thesis by simp
qed


theorem pixel_round_trip_witness:
  "0 \<le> sint (2 :: u16) \<and> sint (2 :: u16) < 8 \<and> 0 \<le> sint (5 :: u16) \<and> sint (5 :: u16) < 8
   \<and> (200 :: u16) \<le> 255
   \<and> backBuffer (powerOn True) + bufSize \<le> length (mem (powerOn True))
   \<and> unat (spec_intensity (mem (drawPixel 2 5 200 (powerOn True))) (backBuffer (powerOn True))
              (nat (sint (2 :: u16))) (nat (sint (5 :: u16)))) = unat (200 :: u16)"
proof -
  have h: "0 \<le> sint (2 :: u16)" "sint (2 :: u16) < 8" "0 \<le> sint (5 :: u16)"
    "sint (5 :: u16) < 8" "(200 :: u16) \<le> 255"
    "backBuffer (powerOn True) + bufSize \<le> length (mem (powerOn True))"
    by (simp_all add: powerOn_buffers powerOn_fields allocSize_def)
  show ?thesis
    using h pixel_round_trip [OF h] by blast
qed

lemma rows_apart:
  fixes y y' j j' k k' :: nat
  assumes "y < 8" "y' < 8" "y \<noteq> y'" "j < 3" "j' < 3"
  shows "buf + y' * 3 + 24 * k + j \<noteq> buf + y * 3 + 24 * k' + j'"
proof
  assume e: "buf + y' * 3 + 24 * k + j = buf + y * 3 + 24 * k' + j'"
  let ?a = "y' * 3 + j" and ?b = "y * 3 + j'"
  from e have "?a + 24 * k = ?b + 24 * k'" by simp
  then have "(?a + 24 * k) mod 24 = (?b + 24 * k') mod 24" by (rule arg_cong)
  then have "?a mod 24 = ?b mod 24" by (simp only: mod_mult_self2)
  moreover have "?a < 24" "?b < 24" using assms by auto
  ultimately have "?a = ?b" by simp
  then have "?a div 3 = ?b div 3" by (rule arg_cong)
  then have "y' = y" using assms by simp
  with assms show False by simp
qed

lemma planeBit_other_row:
  assumes len: "buf + y * 3 + 171 \<le> length m" and y: "y < 8" "y' < 8" "y' \<noteq> y"
  shows "spec_planeBit (drawLoop 1 c bm cm dm (buf + y * 3) m) buf x' y' k
           = spec_planeBit m buf x' y' k"
proof -
  have "\<And>j. j < 3 \<Longrightarrow> drawLoop 1 c bm cm dm (buf + y * 3) m ! (buf + y' * 3 + 24 * k + j)
           = m ! (buf + y' * 3 + 24 * k + j)"
    using y by (intro drawn_other [OF len]) (auto simp: rows_apart)
  from this [of 0] this [of 1] this [of 2] show ?thesis
    by (simp add: spec_planeBit_def)
qed

lemma planeBit_other_column:
  assumes len: "buf + y * 3 + 171 \<le> length m" and k: "k < 8"
    and x: "x < 8" "x' < 8" "x' \<noteq> x"
  shows "spec_planeBit
           (drawLoop 1 c (rowBitPortB ! x) (rowBitPortC ! x) (rowBitPortD ! x) (buf + y * 3) m)
           buf x' y k = spec_planeBit m buf x' y k"
  using drawn_touched [OF len k, of 0 c "rowBitPortB ! x" "rowBitPortC ! x" "rowBitPortD ! x"]
    drawn_touched [OF len k, of 1 c "rowBitPortB ! x" "rowBitPortC ! x" "rowBitPortD ! x"]
    drawn_touched [OF len k, of 2 c "rowBitPortB ! x" "rowBitPortC ! x" "rowBitPortD ! x"]
    tables_disjoint [of x x'] x
  by (simp add: spec_planeBit_def setOrClear_disjoint)

lemma intensity_other:
  assumes len: "buf + y * 3 + 171 \<le> length m" and x: "x < 8" "x' < 8" and y: "y < 8" "y' < 8"
    and other: "(x', y') \<noteq> (x, y)"
  shows "spec_intensity
           (drawLoop 1 c (rowBitPortB ! x) (rowBitPortC ! x) (rowBitPortD ! x) (buf + y * 3) m)
           buf x' y' = spec_intensity m buf x' y'"
proof -
  have "\<And>k. k < 8 \<Longrightarrow> spec_planeBit
           (drawLoop 1 c (rowBitPortB ! x) (rowBitPortC ! x) (rowBitPortD ! x) (buf + y * 3) m)
           buf x' y' k = spec_planeBit m buf x' y' k"
  proof (cases "y' = y")
    case True
    with other have "x' \<noteq> x" by simp
    then show "\<And>k. k < 8 \<Longrightarrow> spec_planeBit
           (drawLoop 1 c (rowBitPortB ! x) (rowBitPortC ! x) (rowBitPortD ! x) (buf + y * 3) m)
           buf x' y' k = spec_planeBit m buf x' y' k"
      using True x by (simp add: planeBit_other_column [OF len])
  next
    case False
    then show "\<And>k. k < 8 \<Longrightarrow> spec_planeBit
           (drawLoop 1 c (rowBitPortB ! x) (rowBitPortC ! x) (rowBitPortD ! x) (buf + y * 3) m)
           buf x' y' k = spec_planeBit m buf x' y' k"
      using y by (simp add: planeBit_other_row [OF len])
  qed
  then have "map (spec_planeBit
           (drawLoop 1 c (rowBitPortB ! x) (rowBitPortC ! x) (rowBitPortD ! x) (buf + y * 3) m)
           buf x' y') [0..<8] = map (spec_planeBit m buf x' y') [0..<8]"
    by (intro map_cong [OF refl]) simp
  then show ?thesis by (simp only: spec_intensity_def)
qed

text \<open>
  C10. For \<open>x\<close> and \<open>y\<close> in 0..7: of the three table entries for column \<open>x\<close> exactly one
  is nonzero and it is a single bit. In each of the 24 bytes of row \<open>y\<close> (three per
  plane) \<open>drawPixel\<close> changes nothing outside the table entry for that byte, it
  changes no other byte at all, and the intensity decoded for any other pixel of
  the back buffer is what it was before.
\<close>

theorem pixel_isolation:
  assumes x: "0 \<le> sint x" "sint x < 8" and y: "0 \<le> sint y" "sint y < 8"
    and len: "backBuffer s + bufSize \<le> length (mem s)"
  shows "(\<exists>j<3. \<exists>b<8. \<forall>i<3.
            [rowBitPortB ! nat (sint x), rowBitPortC ! nat (sint x), rowBitPortD ! nat (sint x)] ! i
              = (if i = j then 2 ^ b else 0))
       \<and> (\<forall>k<8. \<forall>j<3.
            (mem (drawPixel x y c s) ! (backBuffer s + nat (sint y) * 3 + 24 * k + j)
               XOR mem s ! (backBuffer s + nat (sint y) * 3 + 24 * k + j))
            AND NOT ([rowBitPortB ! nat (sint x), rowBitPortC ! nat (sint x),
                      rowBitPortD ! nat (sint x)] ! j) = 0)
       \<and> (\<forall>i. (\<forall>k<8. \<forall>j<3. i \<noteq> backBuffer s + nat (sint y) * 3 + 24 * k + j)
              \<longrightarrow> mem (drawPixel x y c s) ! i = mem s ! i)
       \<and> (\<forall>x'<8. \<forall>y'<8. (x', y') \<noteq> (nat (sint x), nat (sint y)) \<longrightarrow>
            spec_intensity (mem (drawPixel x y c s)) (backBuffer s) x' y'
              = spec_intensity (mem s) (backBuffer s) x' y')"
proof -
  from y have "nat (sint y) * 3 + 171 \<le> bufSize" by (simp add: bufSize_def)
  with len have l: "backBuffer s + nat (sint y) * 3 + 171 \<le> length (mem s)" by simp
  from x have x8: "nat (sint x) < 8" by simp
  from y have y8: "nat (sint y) < 8" by simp
  have d: "mem (drawPixel x y c s)
            = drawLoop 1 (ucast c) (rowBitPortB ! nat (sint x)) (rowBitPortC ! nat (sint x))
                (rowBitPortD ! nat (sint x)) (backBuffer s + nat (sint y) * 3) (mem s)"
    using x y by (simp add: drawPixel_def Let_def)
  show ?thesis
    unfolding d
  proof (intro conjI allI impI)
    show "\<exists>j<3. \<exists>b<8. \<forall>i<3.
            [rowBitPortB ! nat (sint x), rowBitPortC ! nat (sint x), rowBitPortD ! nat (sint x)] ! i
              = (if i = j then 2 ^ b else 0)"
      by (rule tables_one_line [OF x8])
  qed (simp_all add: drawn_touched [OF l] setOrClear_within drawn_other [OF l]
         intensity_other [OF l x8 _ y8])
qed


theorem pixel_isolation_witness:
  "0 \<le> sint (2 :: u16) \<and> sint (2 :: u16) < 8 \<and> 0 \<le> sint (5 :: u16) \<and> sint (5 :: u16) < 8
   \<and> backBuffer (powerOn True) + bufSize \<le> length (mem (powerOn True))
   \<and> spec_intensity (mem (drawPixel 2 5 200 (powerOn True))) (backBuffer (powerOn True)) 3 5
       = spec_intensity (mem (powerOn True)) (backBuffer (powerOn True)) 3 5"
proof -
  have h: "0 \<le> sint (2 :: u16)" "sint (2 :: u16) < 8" "0 \<le> sint (5 :: u16)"
    "sint (5 :: u16) < 8"
    "backBuffer (powerOn True) + bufSize \<le> length (mem (powerOn True))"
    by (simp_all add: powerOn_buffers powerOn_fields allocSize_def)
  have "(3 :: nat) < 8" "(5 :: nat) < 8" "(3 :: nat, 5 :: nat) \<noteq> (nat (sint (2 :: u16)), nat (sint (5 :: u16)))"
    by simp_all
  with pixel_isolation [OF h, of 200]
  have "spec_intensity (mem (drawPixel 2 5 200 (powerOn True))) (backBuffer (powerOn True)) 3 5
       = spec_intensity (mem (powerOn True)) (backBuffer (powerOn True)) 3 5"
    by blast
  with h show ?thesis by blast
qed

subsection \<open>Front and back buffer\<close>

lemma u8_le_1: "(c :: u8) \<le> 1 \<Longrightarrow> c = 0 \<or> c = 1"
proof -
  assume "c \<le> 1"
  then have "c < 8" by (simp add: word_le_nat_alt word_less_nat_alt)
  from u8_below_8 [OF this] \<open>c \<le> 1\<close> show ?thesis
    by (auto simp: word_le_nat_alt)
qed

lemma doubleBuffered_buffers:
  assumes "doubleBuffered s"
  shows "(frontBuf s = 0 \<and> backBuffer s = bufSize) \<or> (frontBuf s = bufSize \<and> backBuffer s = 0)"
  using assms u8_le_1 [of "frontIdx s"]
  by (auto simp: doubleBuffered_def frontBuf_def backBuffer_def)

lemma doubleBuffered_powerOn: "doubleBuffered (powerOn True)"
  by (simp add: doubleBuffered_def powerOn_fields allocSize_def)

lemma doubleBuffered_Watch:
  "Watch (Some raw) True = Some s \<Longrightarrow> length raw = allocSize True \<Longrightarrow> doubleBuffered s"
  by (auto simp: Watch_def doubleBuffered_def statics_def allocSize_def length_memcpy Let_def)

lemma drawPixel_fields:
  "img (drawPixel x y c s) = img s" "frontIdx (drawPixel x y c s) = frontIdx s"
  "length (mem (drawPixel x y c s)) = length (mem s)"
  by (simp_all add: drawPixel_def Let_def)

text \<open>
  C6, as the code has it. In the double-buffered layout \<open>drawPixel\<close> leaves all
  \<open>bufSize\<close> bytes of the front buffer as they were, for every \<open>x\<close>, \<open>y\<close> and
  intensity, and keeps the layout. (In the single-buffered layout \<open>img[1]\<close> is
  \<open>img[0]\<close>, and the write lands in the buffer that is displayed.)
\<close>

theorem front_buffer_kept_when_double_buffered:
  assumes db: "doubleBuffered s"
  shows "take bufSize (drop (frontBuf s) (mem (drawPixel x y c s)))
           = take bufSize (drop (frontBuf s) (mem s))
       \<and> frontBuf (drawPixel x y c s) = frontBuf s
       \<and> doubleBuffered (drawPixel x y c s)"
proof (intro conjI)
  show "frontBuf (drawPixel x y c s) = frontBuf s"
    by (simp add: frontBuf_def drawPixel_fields)
  show "doubleBuffered (drawPixel x y c s)"
    using db by (simp add: doubleBuffered_def drawPixel_fields)
  show "take bufSize (drop (frontBuf s) (mem (drawPixel x y c s)))
           = take bufSize (drop (frontBuf s) (mem s))"
  proof (cases "0 \<le> sint x \<and> 0 \<le> sint y \<and> sint x < 8 \<and> sint y < 8")
    case False
    then have "drawPixel x y c s = s" by (auto simp: drawPixel_def)
    then show ?thesis by simp
  next
    case True
    let ?p = "backBuffer s + nat (sint y) * 3"
    from db have len: "length (mem s) = 2 * bufSize" by (simp add: doubleBuffered_def)
    from True have y8: "nat (sint y) < 8" by auto
    have d: "mem (drawPixel x y c s)
            = drawLoop 1 (ucast c) (rowBitPortB ! nat (sint x)) (rowBitPortC ! nat (sint x))
                (rowBitPortD ! nat (sint x)) ?p (mem s)"
      using True by (simp add: drawPixel_def Let_def)
    have l: "?p + 171 \<le> length (mem s)"
      using doubleBuffered_buffers [OF db] y8 len by (auto simp: bufSize_def)
    have "\<And>i. i < bufSize \<Longrightarrow>
        mem (drawPixel x y c s) ! (frontBuf s + i) = mem s ! (frontBuf s + i)"
    proof -
      fix i assume i: "i < bufSize"
      have "\<forall>k<8. \<forall>j<3. frontBuf s + i \<noteq> ?p + 24 * k + j"
        using doubleBuffered_buffers [OF db] y8 i by (auto simp: bufSize_def)
      then show "mem (drawPixel x y c s) ! (frontBuf s + i) = mem s ! (frontBuf s + i)"
        unfolding d by (rule drawn_other [OF l])
    qed
    then show ?thesis
      using doubleBuffered_buffers [OF db] len
      by (intro nth_equalityI) (auto simp: drawPixel_fields)
  qed
qed

theorem front_buffer_kept_when_double_buffered_witness:
  "doubleBuffered (powerOn True)
   \<and> take bufSize (drop (frontBuf (powerOn True)) (mem (drawPixel 0 0 255 (powerOn True))))
       = take bufSize (drop (frontBuf (powerOn True)) (mem (powerOn True)))"
  using doubleBuffered_powerOn
    front_buffer_kept_when_double_buffered [OF doubleBuffered_powerOn, of 0 0 255]
  by blast

text \<open>Constructed single-buffered, the same call changes the front buffer.\<close>

theorem single_buffer_front_is_written:
  "take bufSize (drop (frontBuf (powerOn False)) (mem (drawPixel 0 0 255 (powerOn False))))
     \<noteq> take bufSize (drop (frontBuf (powerOn False)) (mem (powerOn False)))"
  by code_simp

subsection \<open>Swapping\<close>

lemma fire_keeps_memory: "mem (TIMER1_COMPA_vect s) = mem s" "img (TIMER1_COMPA_vect s) = img s"
  by (simp_all add: fire_defs)

lemma fire_with_request:
  assumes "swapFlag s"
  shows "(swapFlag (TIMER1_COMPA_vect s) \<and> frontIdx (TIMER1_COMPA_vect s) = frontIdx s)
       \<or> (\<not> swapFlag (TIMER1_COMPA_vect s) \<and> frontIdx (TIMER1_COMPA_vect s) = frontIdx s XOR 1)"
  using assms commit_fire [of s] plain_fire [of s] by (cases "frameBoundary s") auto

lemma plane_ok_fire: "plane s \<le> 7 \<Longrightarrow> plane (TIMER1_COMPA_vect s) \<le> 7"
  by (drule u8_le_7) (auto simp: plane_fire word_le_nat_alt)

lemma plane_ok_fires: "plane s \<le> 7 \<Longrightarrow> plane ((TIMER1_COMPA_vect ^^ n) s) \<le> 7"
  by (induction n) (simp_all add: plane_ok_fire)

lemma reach_column_0:
  assumes "col s \<le> 7"
  shows "\<exists>n. col ((TIMER1_COMPA_vect ^^ n) s) = 0"
proof -
  from assms have c: "col s \<in> {0, 1, 2, 3, 4, 5, 6, 7}" by (rule u8_le_7)
  have "0 \<in> set (map (\<lambda>n. (nextCol ^^ n) (col s)) [0..<8])"
    using nextCol_cycle [OF c] by simp
  then show ?thesis unfolding col_fires by auto
qed

lemma reach_boundary_from_column_0:
  "col s = 0 \<Longrightarrow> unat (plane s) = 7 - d \<Longrightarrow> d \<le> 7 \<Longrightarrow>
   \<exists>n. frameBoundary ((TIMER1_COMPA_vect ^^ n) s)"
proof (induction d arbitrary: s)
  case 0
  then have "unat (plane s) = 7" by simp
  then have "word_of_nat (unat (plane s)) = (word_of_nat 7 :: u8)" by simp
  then have "plane s = 7" by simp
  with within_sweep [OF 0(1), of 7]
  have "frameBoundary ((TIMER1_COMPA_vect ^^ 7) s)"
    by (simp add: frameBoundary_def colOrder_inner(3) word_le_nat_alt)
  then show ?case ..
next
  case (Suc d)
  let ?t = "(TIMER1_COMPA_vect ^^ 8) s"
  from Suc.prems have p: "unat (plane s) < 7" by simp
  from next_sweep [OF Suc.prems(1) p] Suc.prems
  have "col ?t = 0" "unat (plane ?t) = 7 - d" by simp_all
  from Suc.IH [OF this] Suc.prems obtain n where "frameBoundary ((TIMER1_COMPA_vect ^^ n) ?t)"
    by auto
  then have "frameBoundary ((TIMER1_COMPA_vect ^^ (n + 8)) s)"
    by (simp only: funpow_add o_apply)
  then show ?case ..
qed

lemma reach_boundary:
  assumes c: "col s \<le> 7" and p: "plane s \<le> 7"
  shows "\<exists>n. frameBoundary ((TIMER1_COMPA_vect ^^ n) s)"
proof -
  from reach_column_0 [OF c] obtain j where j: "col ((TIMER1_COMPA_vect ^^ j) s) = 0" ..
  let ?t = "(TIMER1_COMPA_vect ^^ j) s"
  from plane_ok_fires [OF p, of j] have "unat (plane ?t) \<le> 7" by (simp add: word_le_nat_alt)
  then have "unat (plane ?t) = 7 - (7 - unat (plane ?t))" "7 - unat (plane ?t) \<le> 7" by simp_all
  from reach_boundary_from_column_0 [OF j this]
  obtain n where "frameBoundary ((TIMER1_COMPA_vect ^^ n) ?t)" ..
  then have "frameBoundary ((TIMER1_COMPA_vect ^^ (n + j)) s)"
    by (simp only: funpow_add o_apply)
  then show ?thesis ..
qed

lemma waitSwap_returns:
  "\<not> swapFlag ((TIMER1_COMPA_vect ^^ n) s) \<Longrightarrow> swapFlag s \<Longrightarrow>
   \<exists>s'. waitSwap s = Some s' \<and> \<not> swapFlag s' \<and> frontIdx s' = frontIdx s XOR 1
        \<and> mem s' = mem s \<and> img s' = img s"
proof (induction n arbitrary: s)
  case 0
  then show ?case by simp
next
  case (Suc n)
  let ?t = "TIMER1_COMPA_vect s"
  from Suc.prems(1) have n: "\<not> swapFlag ((TIMER1_COMPA_vect ^^ n) ?t)"
    by (simp add: funpow_swap1)
  have w: "waitSwap s = waitSwap ?t"
    using Suc.prems(2) by (subst waitSwap.simps) simp
  show ?case
  proof (cases "swapFlag ?t")
    case True
    with fire_with_request [OF Suc.prems(2)] have "frontIdx ?t = frontIdx s" by auto
    with Suc.IH [OF n True] show ?thesis
      by (simp add: w fire_keeps_memory)
  next
    case False
    with fire_with_request [OF Suc.prems(2)] have "frontIdx ?t = frontIdx s XOR 1" by auto
    moreover from False have "waitSwap ?t = Some ?t" by (subst waitSwap.simps) simp
    ultimately show ?thesis using False by (simp add: w fire_keeps_memory)
  qed
qed

lemma memcpy_halves:
  assumes "length m = 2 * n" 
  shows "take n (drop 0 (memcpy 0 n n m)) = take n (drop n (memcpy 0 n n m))"
    "take n (drop n (memcpy n 0 n m)) = take n (drop 0 (memcpy n 0 n m))"
  using assms by (simp_all add: memcpy_def)

lemma flip_ok: "(c :: u8) \<le> 1 \<Longrightarrow> c XOR 1 \<le> 1"
  by (drule u8_le_1) auto

text \<open>
  C5. In the double-buffered layout, with the refresh cursor inside the matrix,
  \<open>swapBuffers(true)\<close> returns; the buffers have changed roles, and at its return
  all \<open>bufSize\<close> bytes of the new back buffer equal those of the new front buffer,
  which holds what the back buffer held at the call.
\<close>

theorem swapBuffers_copy_makes_buffers_equal:
  assumes db: "doubleBuffered s" and c: "col s \<le> 7" and p: "plane s \<le> 7"
  shows "\<exists>s'. swapBuffers True s = Some s'
       \<and> take bufSize (drop (backBuffer s') (mem s')) = take bufSize (drop (frontBuf s') (mem s'))
       \<and> frontIdx s' = frontIdx s XOR 1
       \<and> take bufSize (drop (frontBuf s') (mem s')) = take bufSize (drop (backBuffer s) (mem s))"
proof -
  let ?r = "s\<lparr>swapFlag := True\<rparr>"
  from reach_boundary [of ?r] c p obtain n where "frameBoundary ((TIMER1_COMPA_vect ^^ n) ?r)"
    by auto
  then have "\<not> swapFlag ((TIMER1_COMPA_vect ^^ Suc n) ?r)"
    using commit_fire by simp
  from waitSwap_returns [OF this] obtain s1 where
    s1: "waitSwap ?r = Some s1" "\<not> swapFlag s1" "frontIdx s1 = frontIdx s XOR 1"
      "mem s1 = mem s" "img s1 = img s"
    by auto
  let ?s' = "s1\<lparr>mem := memcpy (backBuffer s1) (frontBuf s1) bufSize (mem s1)\<rparr>"
  have r: "swapBuffers True s = Some ?s'" by (simp add: swapBuffers_def s1(1))
  from db s1 have db1: "doubleBuffered s1"
    by (simp add: doubleBuffered_def flip_ok)
  then have len: "length (mem s1) = 2 * bufSize" by (simp add: doubleBuffered_def)
  have b: "backBuffer ?s' = backBuffer s1" "frontBuf ?s' = frontBuf s1"
    by (simp_all add: backBuffer_def frontBuf_def)
  have e: "take bufSize (drop (backBuffer ?s') (mem ?s')) = take bufSize (drop (frontBuf ?s') (mem ?s'))"
    unfolding b using doubleBuffered_buffers [OF db1] memcpy_halves [OF len] by auto
  have sw: "frontBuf s1 = backBuffer s"
    using db s1(3,5) u8_le_1 [of "frontIdx s"]
    by (auto simp: doubleBuffered_def frontBuf_def backBuffer_def)
  have k: "take bufSize (drop (frontBuf ?s') (mem ?s')) = take bufSize (drop (backBuffer s) (mem s))"
    unfolding b using doubleBuffered_buffers [OF db1] len sw s1(4)
    by (auto simp: memcpy_def)
  show ?thesis using r e k s1(3) by simp
qed


theorem swapBuffers_copy_makes_buffers_equal_witness:
  "doubleBuffered (powerOn True) \<and> col (powerOn True) \<le> 7 \<and> plane (powerOn True) \<le> 7
   \<and> (\<exists>s'. swapBuffers True (powerOn True) = Some s'
       \<and> take bufSize (drop (backBuffer s') (mem s')) = take bufSize (drop (frontBuf s') (mem s'))
       \<and> frontIdx s' = 1)"
proof -
  have h: "doubleBuffered (powerOn True)" "col (powerOn True) \<le> 7" "plane (powerOn True) \<le> 7"
    by (simp_all add: doubleBuffered_powerOn powerOn_fields)
  show ?thesis
    using h swapBuffers_copy_makes_buffers_equal [OF h] by (auto simp: powerOn_fields)
qed

subsection \<open>Buttons\<close>

lemma timer_on: "(v OR BV_TOIE2) AND BV_TOIE2 \<noteq> 0"
proof -
  have "(v OR 1) AND 1 = (1 :: u8)" by (rule bit_eqI) (auto simp: bit_simps)
  then show ?thesis by (simp add: BV_TOIE2_def)
qed

lemma timer_off: "(v AND NOT BV_TOIE2) AND BV_TOIE2 = 0"
  by (rule bit_eqI) (auto simp: bit_simps)

lemma IDLE_value: "IDLE = 12" "BV_PORTD3 OR BV_PORTD2 = 12"
  by (simp_all add: IDLE_def BV_PORTD3_def BV_PORTD2_def)

text \<open>A press: an edge whose mask is not idle and differs from the saved one.\<close>

lemma press:
  assumes "pind AND IDLE = b" "b \<noteq> IDLE" "b \<noteq> bSave s"
  shows "INT0_vect pind s
           = s\<lparr>bCount := 0, TCNT2 := 0, TIMSK2 := TIMSK2 s OR BV_TOIE2, bSave := b\<rparr>"
  using assms by (simp add: INT0_vect_def Let_def IDLE_def)

lemma release:
  assumes "pind AND IDLE = IDLE"
  shows "INT0_vect pind s
           = (let s1 = s\<lparr>TIMSK2 := TIMSK2 s AND NOT BV_TOIE2\<rparr>
              in (if bCount s > 2
                  then (if bSave s = BV_PORTD3 then s1\<lparr>bAction := ACTION_TAP_LEFT\<rparr>
                        else if bSave s = BV_PORTD2 then s1\<lparr>bAction := ACTION_TAP_RIGHT\<rparr>
                        else s1)
                  else s1)\<lparr>bSave := IDLE\<rparr>)"
  using assms by (simp add: INT0_vect_def Let_def IDLE_def)

lemma tick_off: "TIMSK2 s AND BV_TOIE2 = 0 \<Longrightarrow> (tick ^^ n) s = s"
  by (induction n) (simp_all add: tick_def)

lemma tick_counts:
  "TIMSK2 s AND BV_TOIE2 \<noteq> 0 \<Longrightarrow> \<not> 76 \<le> bCount s \<Longrightarrow> tick s = s\<lparr>bCount := bCount s + 1\<rparr>"
  by (simp add: tick_def TIMER2_OVF_vect_def)

lemma tick_fires:
  "TIMSK2 s AND BV_TOIE2 \<noteq> 0 \<Longrightarrow> 76 \<le> bCount s \<Longrightarrow>
   bSave s = BV_PORTD3 \<or> bSave s = BV_PORTD2 \<or> bSave s = 0 \<Longrightarrow>
   tick s = s\<lparr>TIMSK2 := TIMSK2 s AND NOT BV_TOIE2, bAction := holdAction (bSave s),
             bSave := 0, bCount := 0\<rparr>"
  by (auto simp: tick_def TIMER2_OVF_vect_def Let_def holdAction_def
        BV_PORTD3_def BV_PORTD2_def)

lemma ticks_count:
  assumes on: "TIMSK2 t AND BV_TOIE2 \<noteq> 0" and z: "bCount t = 0"
  shows "n \<le> 76 \<Longrightarrow> (tick ^^ n) t = t\<lparr>bCount := word_of_nat n\<rparr>"
proof (induction n)
  case 0
  then show ?case using z by simp
next
  case (Suc n)
  then have IH: "(tick ^^ n) t = t\<lparr>bCount := word_of_nat n\<rparr>" and n: "n < 76" by simp_all
  from n have "unat (word_of_nat n :: u8) = n" by (simp add: unat_of_nat)
  with n have "\<not> (76 :: u8) \<le> word_of_nat n" by (simp add: word_le_nat_alt)
  then have "tick (t\<lparr>bCount := word_of_nat n\<rparr>) = t\<lparr>bCount := word_of_nat n + 1\<rparr>"
    using on by (simp add: tick_counts)
  then show ?case by (simp add: IH add.commute)
qed

lemma tick_77:
  assumes on: "TIMSK2 t AND BV_TOIE2 \<noteq> 0" and z: "bCount t = 0"
    and b: "bSave t = BV_PORTD3 \<or> bSave t = BV_PORTD2 \<or> bSave t = 0"
  shows "(tick ^^ 77) t
           = t\<lparr>TIMSK2 := TIMSK2 t AND NOT BV_TOIE2, bAction := holdAction (bSave t),
                bSave := 0, bCount := 0\<rparr>"
proof -
  have "(tick ^^ 77) t = tick ((tick ^^ 76) t)" by (simp add: eval_nat_numeral)
  also have "\<dots> = tick (t\<lparr>bCount := 76\<rparr>)"
    using ticks_count [OF on z, of 76] by simp
  also have "\<dots> = t\<lparr>TIMSK2 := TIMSK2 t AND NOT BV_TOIE2, bAction := holdAction (bSave t),
                bSave := 0, bCount := 0\<rparr>"
    using on b by (simp add: tick_fires)
  finally show ?thesis .
qed

lemma powerOn_buttons:
  "bSave (powerOn dbuf) = IDLE" "bAction (powerOn dbuf) = ACTION_NONE"
  "bCount (powerOn dbuf) = 0"
  by (simp_all add: powerOn_def Watch_def begin_watch_def statics_def IDLE_def Let_def)

lemma pressed_ticks:
  assumes p: "pind AND IDLE = b" and ni: "b \<noteq> IDLE" and new: "b \<noteq> bSave s" and n: "n \<le> 76"
  shows "(tick ^^ n) (INT0_vect pind s)
           = s\<lparr>bCount := word_of_nat n, TCNT2 := 0, TIMSK2 := TIMSK2 s OR BV_TOIE2, bSave := b\<rparr>"
proof -
  let ?t = "INT0_vect pind s"
  have t: "?t = s\<lparr>bCount := 0, TCNT2 := 0, TIMSK2 := TIMSK2 s OR BV_TOIE2, bSave := b\<rparr>"
    by (rule press [OF p ni new])
  have on: "TIMSK2 ?t AND BV_TOIE2 \<noteq> 0" and z: "bCount ?t = 0"
    by (simp_all add: t BV_TOIE2_def)
  show ?thesis using ticks_count [OF on z n] by (simp add: t)
qed

lemma pressed_77:
  assumes p: "pind AND IDLE = b" and b: "b = BV_PORTD3 \<or> b = BV_PORTD2 \<or> b = 0"
    and new: "b \<noteq> bSave s"
  shows "(tick ^^ 77) (INT0_vect pind s)
           = s\<lparr>bCount := 0, TCNT2 := 0, TIMSK2 := (TIMSK2 s OR BV_TOIE2) AND NOT BV_TOIE2,
                bSave := 0, bAction := holdAction b\<rparr>"
proof -
  let ?t = "INT0_vect pind s"
  from b have ni: "b \<noteq> IDLE" by (auto simp: IDLE_value BV_PORTD3_def BV_PORTD2_def)
  have t: "?t = s\<lparr>bCount := 0, TCNT2 := 0, TIMSK2 := TIMSK2 s OR BV_TOIE2, bSave := b\<rparr>"
    by (rule press [OF p ni new])
  have on: "TIMSK2 ?t AND BV_TOIE2 \<noteq> 0" and z: "bCount ?t = 0"
    and sv: "bSave ?t = BV_PORTD3 \<or> bSave ?t = BV_PORTD2 \<or> bSave ?t = 0"
    using b by (simp_all add: t BV_TOIE2_def)
  show ?thesis using tick_77 [OF on z sv] by (simp add: t)
qed

lemma left_press:
  "(8 :: u8) AND IDLE = 8" "(8 :: u8) \<noteq> IDLE" "(8 :: u8) \<noteq> bSave (powerOn False)"
  "(8 :: u8) = BV_PORTD3 \<or> (8 :: u8) = BV_PORTD2 \<or> (8 :: u8) = 0"
  "(12 :: u8) AND IDLE = IDLE"
  by (simp_all add: IDLE_value powerOn_buttons BV_PORTD3_def)

text \<open>
  C8, as the code has it. After a press (an edge whose mask is left, right or both
  buttons down and differs from the saved mask) the pending action is untouched
  for the first 76 overflows; the 77th overflow, the first that finds the counter
  at 76, stores the hold action for that mask and stops the timer interrupt.
  From then on further overflows change nothing, and the edge back to the idle
  mask stores no action, whether or not the hold action has been polled.
\<close>

theorem hold_fires_once_at_77:
  assumes p: "pind AND IDLE = b" and b: "b = BV_PORTD3 \<or> b = BV_PORTD2 \<or> b = 0"
    and new: "b \<noteq> bSave s" and r: "pind' AND IDLE = IDLE"
  shows "(n \<le> 76 \<longrightarrow> bAction ((tick ^^ n) (INT0_vect pind s)) = bAction s)
       \<and> bAction ((tick ^^ 77) (INT0_vect pind s)) = holdAction b
       \<and> TIMSK2 ((tick ^^ 77) (INT0_vect pind s)) AND BV_TOIE2 = 0
       \<and> (tick ^^ m) ((tick ^^ 77) (INT0_vect pind s)) = (tick ^^ 77) (INT0_vect pind s)
       \<and> bAction (INT0_vect pind' ((tick ^^ m) ((tick ^^ 77) (INT0_vect pind s)))) = holdAction b
       \<and> bAction (INT0_vect pind'
            ((tick ^^ m) (snd (action ((tick ^^ 77) (INT0_vect pind s)))))) = ACTION_NONE"
proof -
  let ?t = "INT0_vect pind s"
  from b have ni: "b \<noteq> IDLE" by (auto simp: IDLE_value BV_PORTD3_def BV_PORTD2_def)
  have t: "?t = s\<lparr>bCount := 0, TCNT2 := 0, TIMSK2 := TIMSK2 s OR BV_TOIE2, bSave := b\<rparr>"
    by (rule press [OF p ni new])
  have on: "TIMSK2 ?t AND BV_TOIE2 \<noteq> 0" and z: "bCount ?t = 0"
    and sv: "bSave ?t = BV_PORTD3 \<or> bSave ?t = BV_PORTD2 \<or> bSave ?t = 0"
    using b by (simp_all add: t BV_TOIE2_def)
  let ?h = "(tick ^^ 77) ?t"
  note h = tick_77 [OF on z sv]
  have off: "TIMSK2 ?h AND BV_TOIE2 = 0" by (simp add: h timer_off)
  have off': "TIMSK2 (snd (action ?h)) AND BV_TOIE2 = 0" by (simp add: h timer_off action_def)
  have c0: "bCount ?h = 0" by (simp add: h)
  show ?thesis
  proof (intro conjI impI)
    assume "n \<le> 76"
    then show "bAction ((tick ^^ n) ?t) = bAction s"
      by (simp add: ticks_count [OF on z]) (simp add: t)
  next
    show "bAction ?h = holdAction b" by (simp add: h) (simp add: t)
    show "TIMSK2 ?h AND BV_TOIE2 = 0" by (rule off)
    show "(tick ^^ m) ?h = ?h" by (rule tick_off [OF off])
    show "bAction (INT0_vect pind' ((tick ^^ m) ?h)) = holdAction b"
      unfolding tick_off [OF off] release [OF r]
      by (simp add: Let_def h) (simp add: t)
    show "bAction (INT0_vect pind' ((tick ^^ m) (snd (action ?h)))) = ACTION_NONE"
      unfolding tick_off [OF off'] release [OF r]
      by (simp add: Let_def h action_def)
  qed
qed

theorem hold_fires_once_at_77_witness:
  "(8 :: u8) AND IDLE = 8 \<and> (8 :: u8) = BV_PORTD3 \<and> (8 :: u8) \<noteq> bSave (powerOn False)
   \<and> (12 :: u8) AND IDLE = IDLE \<and> (50 :: nat) \<le> 76
   \<and> bAction ((tick ^^ 50) (INT0_vect 8 (powerOn False))) = ACTION_NONE
   \<and> bAction ((tick ^^ 77) (INT0_vect 8 (powerOn False))) = ACTION_HOLD_LEFT
   \<and> bAction (INT0_vect 12
        ((tick ^^ 3) (snd (action ((tick ^^ 77) (INT0_vect 8 (powerOn False))))))) = ACTION_NONE"
proof -
  have h: "(8 :: u8) AND IDLE = 8" "(8 :: u8) = BV_PORTD3 \<or> (8 :: u8) = BV_PORTD2 \<or> (8 :: u8) = 0"
    "(8 :: u8) \<noteq> bSave (powerOn False)" "(12 :: u8) AND IDLE = IDLE"
    by (simp_all add: IDLE_value powerOn_buttons BV_PORTD3_def)
  have e: "(8 :: u8) = BV_PORTD3" "(50 :: nat) \<le> 76" by (simp_all add: BV_PORTD3_def)
  show ?thesis
    using h e hold_fires_once_at_77 [OF h, of 50 3]
    by (simp add: powerOn_buttons holdAction_def)
qed

text \<open>Held for exactly 76 overflows and then released, a left press is a tap: no hold
  action has been stored by then.\<close>

theorem hold_needs_the_77th_tick:
  "bAction ((tick ^^ 76) (INT0_vect 8 (powerOn False))) = ACTION_NONE
   \<and> fst (action (INT0_vect 12 ((tick ^^ 76) (INT0_vect 8 (powerOn False))))) = ACTION_TAP_LEFT"
  unfolding pressed_ticks [OF left_press(1,2,3), of 76, simplified] release [OF left_press(5)]
  by (simp add: action_def powerOn_buttons BV_PORTD3_def word_less_nat_alt)

lemma hold_both_staggered_release:
  "fst (action (INT0_vect 12 ((tick ^^ 3) (INT0_vect 8
      (snd (action ((tick ^^ 77) (INT0_vect 0 (powerOn False))))))))) = ACTION_TAP_LEFT"
proof -
  have a: "(0 :: u8) AND IDLE = 0" "(0 :: u8) = BV_PORTD3 \<or> (0 :: u8) = BV_PORTD2 \<or> (0 :: u8) = 0"
    "(0 :: u8) \<noteq> bSave (powerOn False)"
    by (simp_all add: IDLE_value powerOn_buttons)
  let ?h = "snd (action ((tick ^^ 77) (INT0_vect 0 (powerOn False))))"
  have "bSave ?h = 0" by (simp add: pressed_77 [OF a] action_def)
  then have n: "(8 :: u8) \<noteq> bSave ?h" by simp
  show ?thesis
    unfolding pressed_ticks [OF left_press(1,2) n, of 3, simplified] release [OF left_press(5)]
    by (simp add: action_def BV_PORTD3_def word_less_nat_alt)
qed

text \<open>
  C9, as the code has it. A single button is pressed (an edge with the mask of the
  left or of the right button, different from the saved mask), \<open>n\<close> overflows
  follow, and an edge with the idle mask ends the press. If \<open>n\<close> is above 2 and at
  most 76, nothing is pending until the release, the release stores the tap
  action of that button, polling returns it and polling again returns
  \<open>ACTION_NONE\<close>. If \<open>n\<close> is below 3 the pending action is what it was before the
  press.
\<close>

theorem tap_window:
  assumes p: "pind AND IDLE = b" and b: "b = BV_PORTD3 \<or> b = BV_PORTD2"
    and new: "b \<noteq> bSave s" and r: "pind' AND IDLE = IDLE"
  shows "(2 < n \<and> n \<le> 76 \<longrightarrow>
            bAction ((tick ^^ n) (INT0_vect pind s)) = bAction s
          \<and> bAction (INT0_vect pind' ((tick ^^ n) (INT0_vect pind s))) = tapAction b
          \<and> fst (action (INT0_vect pind' ((tick ^^ n) (INT0_vect pind s)))) = tapAction b
          \<and> fst (action (snd (action (INT0_vect pind' ((tick ^^ n) (INT0_vect pind s))))))
              = ACTION_NONE)
       \<and> (n < 3 \<longrightarrow> bAction (INT0_vect pind' ((tick ^^ n) (INT0_vect pind s))) = bAction s)"
proof -
  let ?t = "INT0_vect pind s"
  from b have ni: "b \<noteq> IDLE" by (auto simp: IDLE_value BV_PORTD3_def BV_PORTD2_def)
  have t: "?t = s\<lparr>bCount := 0, TCNT2 := 0, TIMSK2 := TIMSK2 s OR BV_TOIE2, bSave := b\<rparr>"
    by (rule press [OF p ni new])
  have on: "TIMSK2 ?t AND BV_TOIE2 \<noteq> 0" and z: "bCount ?t = 0"
    by (simp_all add: t BV_TOIE2_def)
  have cnt: "n \<le> 76 \<Longrightarrow> (2 < (word_of_nat n :: u8)) = (2 < n)"
    by (simp add: word_less_nat_alt unat_of_nat)
  have tap: "tapAction b \<noteq> ACTION_NONE" by (simp add: tapAction_def)
  show ?thesis
  proof (intro conjI impI)
    assume n: "2 < n \<and> n \<le> 76"
    then have e: "(tick ^^ n) ?t = ?t\<lparr>bCount := word_of_nat n\<rparr>"
      by (simp add: ticks_count [OF on z])
    show "bAction ((tick ^^ n) ?t) = bAction s" by (simp add: e) (simp add: t)
    show a: "bAction (INT0_vect pind' ((tick ^^ n) ?t)) = tapAction b"
      unfolding e release [OF r] using n b cnt
      by (auto simp: Let_def t tapAction_def BV_PORTD3_def BV_PORTD2_def)
    then show "fst (action (INT0_vect pind' ((tick ^^ n) ?t))) = tapAction b"
      by (simp add: action_def)
    show "fst (action (snd (action (INT0_vect pind' ((tick ^^ n) ?t))))) = ACTION_NONE"
      by (simp add: action_def)
  next
    assume n: "n < 3"
    then have e: "(tick ^^ n) ?t = ?t\<lparr>bCount := word_of_nat n\<rparr>"
      by (simp add: ticks_count [OF on z])
    show "bAction (INT0_vect pind' ((tick ^^ n) ?t)) = bAction s"
      unfolding e release [OF r] using n cnt
      by (simp add: Let_def t)
  qed
qed

theorem tap_window_witness:
  "(8 :: u8) AND IDLE = 8 \<and> (8 :: u8) = BV_PORTD3 \<and> (8 :: u8) \<noteq> bSave (powerOn False)
   \<and> (12 :: u8) AND IDLE = IDLE \<and> (2 :: nat) < 5 \<and> (5 :: nat) \<le> 76 \<and> (1 :: nat) < 3
   \<and> fst (action (INT0_vect 12 ((tick ^^ 5) (INT0_vect 8 (powerOn False))))) = ACTION_TAP_LEFT
   \<and> fst (action (snd (action (INT0_vect 12 ((tick ^^ 5) (INT0_vect 8 (powerOn False)))))))
       = ACTION_NONE
   \<and> bAction (INT0_vect 12 ((tick ^^ 1) (INT0_vect 8 (powerOn False)))) = ACTION_NONE"
proof -
  have h: "(8 :: u8) AND IDLE = 8" "(8 :: u8) = BV_PORTD3 \<or> (8 :: u8) = BV_PORTD2"
    "(8 :: u8) \<noteq> bSave (powerOn False)" "(12 :: u8) AND IDLE = IDLE"
    by (simp_all add: IDLE_value powerOn_buttons BV_PORTD3_def)
  have e: "(8 :: u8) = BV_PORTD3" "(2 :: nat) < 5" "(5 :: nat) \<le> 76" "(1 :: nat) < 3"
    by (simp_all add: BV_PORTD3_def)
  show ?thesis
    using h e tap_window [OF h, of 5] tap_window [OF h, of 1]
    by (simp add: powerOn_buttons tapAction_def)
qed

text \<open>After 77 overflows the release finds a hold action pending, not a tap.\<close>

theorem long_press_is_not_a_tap:
  "fst (action (INT0_vect 12 ((tick ^^ 77) (INT0_vect 8 (powerOn False))))) = ACTION_HOLD_LEFT"
  unfolding pressed_77 [OF left_press(1,4,3)] release [OF left_press(5)]
  by (simp add: action_def holdAction_def BV_PORTD3_def)


end
